theory Spec2Isabelle
  imports Complex_Main "HOL-Library.Word" "HOL-Library.Sublist"
begin

section \<open>JavaScript strings\<close>

text \<open>
  A JavaScript string is a sequence of UTF-16 code units. \<open>length\<close>, \<open>slice\<close>,
  \<open>split\<close>, \<open>trim\<close> and the regular expressions of the sources (none has the
  \<open>u\<close> flag) all work on code units, while \<open>Buffer.byteLength(s, "utf-8")\<close>
  counts the bytes of the UTF-8 encoding. The two differ outside ASCII, so the model
  keeps code units and computes the byte length from them.
\<close>

type_synonym code_unit = "16 word"
type_synonym jsstring = "code_unit list"

definition ascii :: "string \<Rightarrow> jsstring" where
  "ascii s = map of_char s"

definition LF :: code_unit where
  "LF = 0x0A"

definition isHighSurrogate :: "code_unit \<Rightarrow> bool" where
  "isHighSurrogate c = (0xD800 \<le> c \<and> c \<le> 0xDBFF)"

definition isLowSurrogate :: "code_unit \<Rightarrow> bool" where
  "isLowSurrogate c = (0xDC00 \<le> c \<and> c \<le> 0xDFFF)"

text \<open>
  \<open>Buffer.byteLength(s, "utf-8")\<close>: one byte below U+0080, two below U+0800, four for
  a surrogate pair, three for every other code unit (a lone surrogate is encoded as
  U+FFFD, three bytes).
\<close>

fun byteLength :: "jsstring \<Rightarrow> nat" where
  "byteLength [] = 0"
| "byteLength [c] = (if c < 0x80 then 1 else if c < 0x800 then 2 else 3)"
| "byteLength (c # d # ds) =
     (if c < 0x80 then 1 + byteLength (d # ds)
      else if c < 0x800 then 2 + byteLength (d # ds)
      else if isHighSurrogate c \<and> isLowSurrogate d then 4 + byteLength ds
      else 3 + byteLength (d # ds))"

text \<open>
  The white space of \<open>String.prototype.trim\<close> and of \<open>\s\<close>: the ECMAScript
  WhiteSpace and LineTerminator code points.
\<close>

definition isWhiteSpace :: "code_unit \<Rightarrow> bool" where
  "isWhiteSpace c =
     (c = 0x09 \<or> c = 0x0A \<or> c = 0x0B \<or> c = 0x0C \<or> c = 0x0D \<or> c = 0x20 \<or> c = 0xA0
      \<or> c = 0x1680 \<or> (0x2000 \<le> c \<and> c \<le> 0x200A) \<or> c = 0x2028 \<or> c = 0x2029
      \<or> c = 0x202F \<or> c = 0x205F \<or> c = 0x3000 \<or> c = 0xFEFF)"

definition trimStart :: "jsstring \<Rightarrow> jsstring" where
  "trimStart s = dropWhile isWhiteSpace s"

definition trimEnd :: "jsstring \<Rightarrow> jsstring" where
  "trimEnd s = rev (dropWhile isWhiteSpace (rev s))"

definition trim :: "jsstring \<Rightarrow> jsstring" where
  "trim s = trimEnd (trimStart s)"

text \<open>\<open>s.includes(sub)\<close>.\<close>

fun includes_str :: "jsstring \<Rightarrow> jsstring \<Rightarrow> bool" where
  "includes_str [] sub = (sub = [])"
| "includes_str (c # cs) sub = (prefix sub (c # cs) \<or> includes_str cs sub)"

text \<open>\<open>xs.join(sep)\<close>.\<close>

fun join :: "jsstring \<Rightarrow> jsstring list \<Rightarrow> jsstring" where
  "join sep [] = []"
| "join sep [x] = x"
| "join sep (x # y # ys) = x @ sep @ join sep (y # ys)"

text \<open>
  \<open>[...new Set(xs)]\<close>: a Set keeps insertion order and ignores a value it already
  holds, so spreading it gives the first occurrences in order.
\<close>

definition Set_add :: "'a list \<Rightarrow> 'a \<Rightarrow> 'a list" where
  "Set_add s x = (if x \<in> set s then s else s @ [x])"

definition new_Set :: "'a list \<Rightarrow> 'a list" where
  "new_Set xs = foldl Set_add [] xs"

text \<open>The index of the first occurrence of \<open>x\<close> in \<open>xs\<close> (the length, when there is none).\<close>

definition first_index :: "'a list \<Rightarrow> 'a \<Rightarrow> nat" where
  "first_index xs x = length (takeWhile (\<lambda>y. y \<noteq> x) xs)"

text \<open>
  \<open>toLowerCase\<close>, as far as the sources observe it: the result is only compared with
  ASCII strings. The ASCII letters and the two code units whose lower case holds an
  ASCII letter (U+0130 and U+212A) are mapped as ECMAScript maps them; every other code
  unit has a lower case without ASCII code units and is left in place.
\<close>

definition toLowerCase_unit :: "code_unit \<Rightarrow> jsstring" where
  "toLowerCase_unit c =
     (if 0x41 \<le> c \<and> c \<le> 0x5A then [c + 0x20]
      else if c = 0x130 then [0x69, 0x307]
      else if c = 0x212A then [0x6B]
      else [c])"

definition toLowerCase :: "jsstring \<Rightarrow> jsstring" where
  "toLowerCase s = concat (map toLowerCase_unit s)"

text \<open>\<open>s.lastIndexOf(c)\<close> for a single code unit; \<open>None\<close> stands for \<open>-1\<close>.\<close>

fun lastIndexOf :: "code_unit \<Rightarrow> jsstring \<Rightarrow> nat option" where
  "lastIndexOf c [] = None"
| "lastIndexOf c (x # xs) =
     (case lastIndexOf c xs of
        Some i \<Rightarrow> Some (Suc i)
      | None \<Rightarrow> if x = c then Some 0 else None)"

section \<open>judge-diff.ts\<close>

definition MAX_DIFF_BYTES :: nat where
  "MAX_DIFF_BYTES = 2 * 1024 * 1024"

definition MAX_FILE_DIFF_BYTES :: nat where
  "MAX_FILE_DIFF_BYTES = 1 * 1024 * 1024"

definition IMAGE_OR_HEAVY_EXTENSIONS :: "jsstring list" where
  "IMAGE_OR_HEAVY_EXTENSIONS = map (\<lambda>e. toLowerCase (ascii e))
     [''.png'', ''.jpg'', ''.jpeg'', ''.gif'', ''.webp'', ''.ico'', ''.bmp'', ''.tiff'', ''.tif'',
      ''.svg'', ''.avif'', ''.heic'', ''.webm'', ''.mp4'', ''.mov'', ''.avi'', ''.pdf'', ''.woff2'',
      ''.woff'', ''.ttf'', ''.eot'', ''.otf'']"

text \<open>
  \<open>isImageOrHeavyByPath\<close>: back slashes become slashes, the path is lower-cased, and
  the extension is the slice from the last dot (\<open>slice(-1)\<close>, the last code unit, is
  what \<open>slice(lastIndexOf("."))\<close> would give without a dot; the \<open>includes\<close> test
  keeps that case out).
\<close>

definition isImageOrHeavyByPath :: "jsstring \<Rightarrow> bool" where
  "isImageOrHeavyByPath path =
     (let normalized = toLowerCase (map (\<lambda>c. if c = 0x5C then 0x2F else c) path);
          ext = (if includes_str normalized (ascii ''.'')
                 then (case lastIndexOf 0x2E normalized of
                         Some i \<Rightarrow> drop i normalized
                       | None \<Rightarrow> drop (length normalized - 1) normalized)
                 else [])
      in ext \<in> set IMAGE_OR_HEAVY_EXTENSIONS)"

record JudgeDiffResult =
  diff :: jsstring
  excludedFiles :: "jsstring list"
  truncated :: bool
  base :: jsstring
  head :: jsstring

text \<open>
  \<open>rawDiff.split(/(?=\ndiff --git )/)\<close>. The pattern is a lookahead, so every match
  is empty; \<open>split\<close> skips an empty match at the start of the current piece and cuts
  at every other one. The result is the input cut before every occurrence of
  \<open>"\ndiff --git "\<close> that does not start at index 0, and \<open>[""]\<close> for the empty
  string.
\<close>

definition split_marker :: jsstring where
  "split_marker = ascii ''\<newline>diff --git ''"

fun split_lookahead :: "jsstring \<Rightarrow> jsstring list" where
  "split_lookahead [] = [] # []"
| "split_lookahead (c # cs) =
     (if prefix split_marker cs then [c] # split_lookahead cs
      else (case split_lookahead cs of
              p # ps \<Rightarrow> (c # p) # ps
            | [] \<Rightarrow> [c] # []))"

text \<open>Line 60: the pieces, trimmed, without the empty ones.\<close>

definition split_segments :: "jsstring \<Rightarrow> jsstring list" where
  "split_segments rawDiff = filter (\<lambda>s. s \<noteq> []) (map trim (split_lookahead rawDiff))"

text \<open>The condition of line 61, which guards the single-segment fallback.\<close>

definition fallback_condition :: "jsstring \<Rightarrow> bool" where
  "fallback_condition rawDiff = (length (split_segments rawDiff) = 0 \<and> trim rawDiff \<noteq> [])"

definition splitDiffByFile :: "jsstring \<Rightarrow> jsstring list" where
  "splitDiffByFile rawDiff =
     (if rawDiff = [] \<or> trim rawDiff = [] then []
      else let segments = split_segments rawDiff
           in if fallback_condition rawDiff
              then (let first = trimStart rawDiff
                    in if prefix (ascii ''diff --git '') first then [first] else segments)
              else segments)"

text \<open>
  \<open>pathFromSegment\<close>. The first line is what precedes the first line feed. The
  pattern \<open>/^diff --git a\/(.+?) b\//\<close> is anchored at index 0; \<open>.\<close> matches any
  code unit but the four line terminators, and the lazy \<open>.+?\<close> stops at the first
  place, after at least one code unit, where \<open>" b/"\<close> follows.
\<close>

definition isLineTerminator :: "code_unit \<Rightarrow> bool" where
  "isLineTerminator c = (c = 0x0A \<or> c = 0x0D \<or> c = 0x2028 \<or> c = 0x2029)"

fun lazy_dots_until :: "jsstring \<Rightarrow> jsstring \<Rightarrow> jsstring option" where
  "lazy_dots_until stop [] = None"
| "lazy_dots_until stop (c # cs) =
     (if isLineTerminator c then None
      else if prefix stop cs then Some [c]
      else map_option ((#) c) (lazy_dots_until stop cs))"

definition pathFromSegment :: "jsstring \<Rightarrow> jsstring" where
  "pathFromSegment segment =
     (let firstLine = takeWhile (\<lambda>c. c \<noteq> LF) segment
      in if prefix (ascii ''diff --git a/'') firstLine
         then (case lazy_dots_until (ascii '' b/'') (drop 13 firstLine) of
                 Some m1 \<Rightarrow> trim m1
               | None \<Rightarrow> [])
         else [])"

definition segmentIsBinary :: "jsstring \<Rightarrow> bool" where
  "segmentIsBinary segment =
     (includes_str segment (ascii ''Binary files '') \<and> includes_str segment (ascii '' differ''))"

text \<open>
  The loop of \<open>getDiffForJudge\<close> (lines 110 to 135): its variables are a record, its
  body a function from the state and the segment to the next state. \<open>seg.slice(0,
  remaining)\<close> takes code units. The subtraction \<open>MAX_DIFF_BYTES - totalBytes\<close> is
  on \<open>nat\<close>; a negative difference and 0 take the same branch of \<open>remaining > 0\<close>.
\<close>

record loop_state =
  included :: "jsstring list"
  totalBytes :: nat
  didTruncate :: bool
  excludedPushed :: "jsstring list"

definition loop_init :: loop_state where
  "loop_init = \<lparr>included = [], totalBytes = 0, didTruncate = False, excludedPushed = []\<rparr>"

definition push_path :: "jsstring \<Rightarrow> loop_state \<Rightarrow> loop_state" where
  "push_path path st =
     (if path \<noteq> [] then st\<lparr>excludedPushed := excludedPushed st @ [path]\<rparr> else st)"

definition loop_body :: "loop_state \<Rightarrow> jsstring \<Rightarrow> loop_state" where
  "loop_body st seg =
     (let path = pathFromSegment seg;
          segBytes = byteLength seg;
          isImage = (path \<noteq> [] \<and> isImageOrHeavyByPath path);
          isBinary = segmentIsBinary seg;
          overSize = (segBytes > MAX_FILE_DIFF_BYTES)
      in if isImage \<or> isBinary \<or> overSize then push_path path st
         else if totalBytes st + segBytes \<le> MAX_DIFF_BYTES
         then st\<lparr>included := included st @ [seg], totalBytes := totalBytes st + segBytes\<rparr>
         else (let remaining = MAX_DIFF_BYTES - totalBytes st
               in push_path path
                    (if remaining > 0
                     then st\<lparr>included := included st @ [take remaining seg],
                             totalBytes := MAX_DIFF_BYTES,
                             didTruncate := True\<rparr>
                     else st)))"

definition run_loop :: "jsstring list \<Rightarrow> loop_state" where
  "run_loop segments = foldl loop_body loop_init segments"

text \<open>Lines 105 to 147: what \<open>getDiffForJudge\<close> does once git has given the diff.\<close>

definition diff_of_raw :: "jsstring \<Rightarrow> jsstring \<Rightarrow> jsstring \<Rightarrow> JudgeDiffResult" where
  "diff_of_raw fullRaw b h =
     (let st = run_loop (splitDiffByFile fullRaw);
          totalRawBytes = byteLength fullRaw
      in \<lparr>diff = join [LF] (included st),
          excludedFiles = new_Set (excludedPushed st),
          truncated = (didTruncate st \<or> totalRawBytes > MAX_DIFF_BYTES),
          base = b,
          head = h\<rparr>)"

text \<open>
  \<open>execSync\<close> runs git outside the program: it is a parameter, a function from the two
  revisions to the output of \<open>git diff base...head\<close> or to the error it throws (a
  failing command, or more output than \<open>maxBuffer\<close>).
\<close>

datatype exec_error = ExecError

definition getDiffForJudge ::
  "(jsstring \<Rightarrow> jsstring \<Rightarrow> exec_error + jsstring) \<Rightarrow> jsstring \<Rightarrow> jsstring \<Rightarrow> JudgeDiffResult" where
  "getDiffForJudge execSync_git_diff b h =
     (case execSync_git_diff b h of
        Inl e \<Rightarrow> \<lparr>diff = [], excludedFiles = [], truncated = False, base = b, head = h\<rparr>
      | Inr fullRaw \<Rightarrow> diff_of_raw fullRaw b h)"

section \<open>main.ts\<close>

subsection \<open>extractDecisionIds\<close>

text \<open>The class \<open>[a-zA-Z0-9_-]\<close> and the word characters of \<open>\b\<close>.\<close>

definition isIdChar :: "code_unit \<Rightarrow> bool" where
  "isIdChar c =
     ((0x61 \<le> c \<and> c \<le> 0x7A) \<or> (0x41 \<le> c \<and> c \<le> 0x5A) \<or> (0x30 \<le> c \<and> c \<le> 0x39)
      \<or> c = 0x5F \<or> c = 0x2D)"

definition isWordChar :: "code_unit \<Rightarrow> bool" where
  "isWordChar c =
     ((0x61 \<le> c \<and> c \<le> 0x7A) \<or> (0x41 \<le> c \<and> c \<le> 0x5A) \<or> (0x30 \<le> c \<and> c \<le> 0x39)
      \<or> c = 0x5F)"

text \<open>
  The \<open>i\<close> flag without the \<open>u\<close> flag compares the upper-case forms of single
  code units, and a code unit from U+0080 on is never taken to an ASCII one. All the
  literals of the patterns are ASCII, so only the ASCII letters need folding.
\<close>

definition canonicalize :: "code_unit \<Rightarrow> code_unit" where
  "canonicalize c = (if 0x61 \<le> c \<and> c \<le> 0x7A then c - 0x20 else c)"

text \<open>A literal at the start of the input: what follows it, when it matches.\<close>

fun match_literal :: "bool \<Rightarrow> jsstring \<Rightarrow> jsstring \<Rightarrow> jsstring option" where
  "match_literal ignoreCase [] s = Some s"
| "match_literal ignoreCase (p # ps) [] = None"
| "match_literal ignoreCase (p # ps) (c # cs) =
     (if (if ignoreCase then canonicalize p = canonicalize c else p = c)
      then match_literal ignoreCase ps cs else None)"

text \<open>
  A pattern is modelled by its match at one index: from the code unit before the index
  (for \<open>\b\<close>) and the input from the index on, to the first capture group and the
  length of the match.
\<close>

type_synonym regex = "code_unit option \<Rightarrow> jsstring \<Rightarrow> (jsstring \<times> nat) option"

text \<open>
  \<open>/decern:\s*([a-zA-Z0-9_-]+)/gi\<close>. White space and the class are disjoint, so the
  greedy \<open>\s*\<close> never gives anything back.
\<close>

definition DECERN_PREFIX :: regex where
  "DECERN_PREFIX prev s =
     (case match_literal True (ascii ''decern:'') s of
        None \<Rightarrow> None
      | Some r \<Rightarrow>
          (let ws = takeWhile isWhiteSpace r;
               m1 = takeWhile isIdChar (dropWhile isWhiteSpace r)
           in if m1 = [] then None else Some (m1, 7 + length ws + length m1)))"

text \<open>\<open>/DECERN-([a-zA-Z0-9_-]+)/g\<close>.\<close>

definition DECERN_TICKET :: regex where
  "DECERN_TICKET prev s =
     (case match_literal False (ascii ''DECERN-'') s of
        None \<Rightarrow> None
      | Some r \<Rightarrow>
          (let m1 = takeWhile isIdChar r
           in if m1 = [] then None else Some (m1, 7 + length m1)))"

text \<open>\<open>/\/decisions\/([a-zA-Z0-9_-]+)/g\<close>.\<close>

definition DECISIONS_URL :: regex where
  "DECISIONS_URL prev s =
     (case match_literal False (ascii ''/decisions/'') s of
        None \<Rightarrow> None
      | Some r \<Rightarrow>
          (let m1 = takeWhile isIdChar r
           in if m1 = [] then None else Some (m1, 11 + length m1)))"

text \<open>
  \<open>\b\<close> holds between two code units of which exactly one is a word character; the
  ends of the input count as not a word character.
\<close>

definition word_boundary :: "code_unit option \<Rightarrow> code_unit option \<Rightarrow> bool" where
  "word_boundary a b =
     ((case a of None \<Rightarrow> False | Some c \<Rightarrow> isWordChar c)
      \<noteq> (case b of None \<Rightarrow> False | Some c \<Rightarrow> isWordChar c))"

text \<open>
  The greedy \<open>[a-zA-Z0-9_-]+\<close> followed by \<open>\b\<close>: of the run \<open>c # cs\<close> of class
  members, followed by \<open>nxt\<close>, the longest non-empty prefix that ends at a word
  boundary. The class holds the hyphen, which is not a word character, so the pattern
  backtracks over trailing hyphens.
\<close>

fun greedy_to_boundary :: "code_unit \<Rightarrow> jsstring \<Rightarrow> code_unit option \<Rightarrow> jsstring option" where
  "greedy_to_boundary c [] nxt = (if word_boundary (Some c) nxt then Some [c] else None)"
| "greedy_to_boundary c (d # ds) nxt =
     (case greedy_to_boundary d ds nxt of
        Some m \<Rightarrow> Some (c # m)
      | None \<Rightarrow> if word_boundary (Some c) (Some d) then Some [c] else None)"

text \<open>\<open>/\b(ADR-[a-zA-Z0-9_-]+)\b/gi\<close>; the group is the text as it stands in the input.\<close>

definition ADR_REF :: regex where
  "ADR_REF prev s =
     (if word_boundary prev (case s of [] \<Rightarrow> None | c # cs \<Rightarrow> Some c)
      then (case match_literal True (ascii ''ADR-'') s of
              None \<Rightarrow> None
            | Some r \<Rightarrow>
                (case takeWhile isIdChar r of
                   [] \<Rightarrow> None
                 | c # cs \<Rightarrow>
                     (case greedy_to_boundary c cs
                             (case dropWhile isIdChar r of [] \<Rightarrow> None | d # ds \<Rightarrow> Some d) of
                        None \<Rightarrow> None
                      | Some m \<Rightarrow> Some (take 4 s @ m, 4 + length m))))
      else None)"

text \<open>
  The loop \<open>while ((m = re.exec(text)) !== null)\<close> on a global pattern with
  \<open>lastIndex\<close> set to 0: each \<open>exec\<close> finds the leftmost match from \<open>lastIndex\<close>
  on and moves \<open>lastIndex\<close> behind it. \<open>skip\<close> counts the code units still inside
  the last match. No pattern here matches the empty string.
\<close>

fun exec_all :: "regex \<Rightarrow> nat \<Rightarrow> code_unit option \<Rightarrow> jsstring \<Rightarrow> jsstring list" where
  "exec_all re skip prev [] = []"
| "exec_all re (Suc k) prev (c # cs) = exec_all re k (Some c) cs"
| "exec_all re 0 prev (c # cs) =
     (case re prev (c # cs) of
        Some (m1, n) \<Rightarrow> m1 # exec_all re (n - 1) (Some c) cs
      | None \<Rightarrow> exec_all re 0 (Some c) cs)"

text \<open>The values given to \<open>ids.add\<close>, in the order of the calls.\<close>

definition added_ids :: "jsstring \<Rightarrow> jsstring list" where
  "added_ids text =
     concat (map (\<lambda>re. map trim (exec_all re 0 None text))
               [DECERN_PREFIX, DECERN_TICKET, DECISIONS_URL, ADR_REF])"

definition extractDecisionIds :: "jsstring \<Rightarrow> jsstring list" where
  "extractDecisionIds text = (if text = [] then [] else new_Set (added_ids text))"

text \<open>\<open>isAdrRef\<close>: \<open>/^ADR-[a-zA-Z0-9_-]+$/i\<close> on the trimmed reference.\<close>

definition isAdrRef :: "jsstring \<Rightarrow> bool" where
  "isAdrRef ref =
     (case match_literal True (ascii ''ADR-'') (trim ref) of
        None \<Rightarrow> False
      | Some r \<Rightarrow> r \<noteq> [] \<and> dropWhile isIdChar r = [])"

subsection \<open>callJudge\<close>

text \<open>
  A JavaScript number is a double: a finite value, an infinity or NaN. The finite
  doubles are rational numbers, and comparing them is exact. Dividing is not: the
  source's \<open>data.confidence / 100\<close> is the quotient rounded to a double, so the
  division by 100 is a parameter \<open>div100\<close> of the model. \<open>exact_div100\<close> is the
  quotient without rounding, which is what the source computes wherever that quotient
  is a double.
\<close>

datatype jsnumber = Finite rat | PosInfinity | NegInfinity | NaN

datatype jsvalue = JUndefined | JNull | JBool bool | JNumber jsnumber | JString jsstring | JObject

definition exact_div100 :: "rat \<Rightarrow> rat" where
  "exact_div100 x = x / 100"

text \<open>The fields of the response that \<open>callJudge\<close> reads; a missing field is \<open>JUndefined\<close>.\<close>

record judge_data =
  allowed :: jsvalue
  reason :: jsvalue
  advisory :: jsvalue
  confidence :: jsvalue
  advisoryMessage :: jsvalue

text \<open>
  What \<open>await res.json().catch(() => ({}))\<close> gives: \<open>null\<close> for the JSON text
  \<open>null\<close>, and otherwise a value whose fields can be read (all of them undefined for
  a body that is not JSON, by the \<open>catch\<close>, and for a JSON number, string or array).
\<close>

datatype response_body = BodyNull | BodyFields judge_data

datatype fetch_outcome = Response nat response_body | Aborted | Rejected

datatype failure_reason =
    MissingBaseUrlOrToken
  | MissingJudgeLlmEnv
  | ReasonFromResponse jsvalue
  | HttpStatus nat
  | JudgeTimeout
  | JudgeNetworkError

datatype JudgeResult =
    JudgeAllowed jsvalue "rat option" "jsstring option"
  | JudgeDenied jsvalue jsvalue "rat option"
  | JudgeFailed nat failure_reason

text \<open>Lines 171 to 176.\<close>

definition normalizeConfidence :: "(rat \<Rightarrow> rat) \<Rightarrow> jsvalue \<Rightarrow> rat option" where
  "normalizeConfidence div100 v =
     (case v of
        JNumber (Finite c) \<Rightarrow> Some (if c > 1 then div100 c else c)
      | _ \<Rightarrow> None)"

definition nullish :: "jsvalue \<Rightarrow> bool" where
  "nullish v = (v = JUndefined \<or> v = JNull)"

text \<open>Lines 158 to 193: from the status and the fields of the response to the result.\<close>

definition judge_result_of_response :: "(rat \<Rightarrow> rat) \<Rightarrow> nat \<Rightarrow> judge_data \<Rightarrow> JudgeResult" where
  "judge_result_of_response div100 status data =
     (if status \<noteq> 200
      then JudgeFailed status
             (if nullish (reason data) then HttpStatus status else ReasonFromResponse (reason data))
      else (let conf = normalizeConfidence div100 (confidence data)
            in if allowed data = JBool True
               then JudgeAllowed (reason data) conf
                      (case advisoryMessage data of JString s \<Rightarrow> Some s | _ \<Rightarrow> None)
               else JudgeDenied
                      (if nullish (reason data)
                       then JString (ascii ''Judge did not allow the change.'')
                       else reason data)
                      (advisory data) conf))"

definition judge_confidence :: "JudgeResult \<Rightarrow> rat option" where
  "judge_confidence r =
     (case r of
        JudgeAllowed rs conf msg \<Rightarrow> conf
      | JudgeDenied rs adv conf \<Rightarrow> conf
      | JudgeFailed status rs \<Rightarrow> None)"

text \<open>
  The configuration read from the environment at start-up. A variable is \<open>None\<close> when
  it is not set; the source's truth test of a string also fails on the empty string.
\<close>

record gate_config =
  DECERN_BASE_URL :: "jsstring option"
  DECERN_CI_TOKEN :: "jsstring option"
  CI_BASE_SHA :: "jsstring option"
  CI_HEAD_SHA :: "jsstring option"
  CI_PR_TITLE :: "jsstring option"
  CI_PR_BODY :: "jsstring option"
  CI_COMMIT_MESSAGE :: "jsstring option"
  DECERN_GATE_JUDGE_ENABLED :: bool
  DECERN_JUDGE_LLM_BASE_URL :: "jsstring option"
  DECERN_JUDGE_LLM_API_KEY :: "jsstring option"
  DECERN_JUDGE_LLM_MODEL :: "jsstring option"
  DECERN_JUDGE_MIN_CONFIDENCE :: "rat option"

definition truthy :: "jsstring option \<Rightarrow> bool" where
  "truthy v = (case v of None \<Rightarrow> False | Some s \<Rightarrow> s \<noteq> [])"

record judge_params =
  decisionRef :: jsstring
  param_diff :: jsstring
  param_truncated :: bool
  baseSha :: jsstring
  headSha :: jsstring

text \<open>The JSON body of the POST request; the \<open>llm\<close> object is taken from the configuration.\<close>

record judge_request =
  req_diff :: jsstring
  req_truncated :: bool
  req_baseSha :: jsstring
  req_headSha :: jsstring
  req_adrRef :: "jsstring option"
  req_decisionId :: "jsstring option"

text \<open>
  \<open>callJudge\<close>, with \<open>fetch\<close> as a parameter from the request to what comes back.
  The result is paired with the request that was sent, if one was. Reading a field of
  a \<open>null\<close> body throws inside the \<open>try\<close>, which the \<open>catch\<close> turns into the
  network-error result. (\<open>new URL\<close> throws on a base URL that does not parse; the
  model takes \<open>DECERN_BASE_URL\<close>, when set, to parse.)
\<close>

definition callJudge ::
  "gate_config \<Rightarrow> (rat \<Rightarrow> rat) \<Rightarrow> (judge_request \<Rightarrow> fetch_outcome) \<Rightarrow> judge_params
     \<Rightarrow> JudgeResult \<times> judge_request option" where
  "callJudge cfg div100 fetch params =
     (if \<not> truthy (DECERN_BASE_URL cfg) \<or> \<not> truthy (DECERN_CI_TOKEN cfg)
      then (JudgeFailed 0 MissingBaseUrlOrToken, None)
      else if \<not> truthy (DECERN_JUDGE_LLM_BASE_URL cfg) \<or> \<not> truthy (DECERN_JUDGE_LLM_API_KEY cfg)
              \<or> \<not> truthy (DECERN_JUDGE_LLM_MODEL cfg)
      then (JudgeFailed 0 MissingJudgeLlmEnv, None)
      else (let body = \<lparr>req_diff = param_diff params,
                         req_truncated = param_truncated params,
                         req_baseSha = baseSha params,
                         req_headSha = headSha params,
                         req_adrRef = (if isAdrRef (decisionRef params)
                                       then Some (trim (decisionRef params)) else None),
                         req_decisionId = (if isAdrRef (decisionRef params)
                                           then None else Some (trim (decisionRef params)))\<rparr>
            in (case fetch body of
                  Response status (BodyFields data) \<Rightarrow> judge_result_of_response div100 status data
                | Response status BodyNull \<Rightarrow> JudgeFailed 0 JudgeNetworkError
                | Aborted \<Rightarrow> JudgeFailed 0 JudgeTimeout
                | Rejected \<Rightarrow> JudgeFailed 0 JudgeNetworkError,
                Some body)))"

subsection \<open>run\<close>

text \<open>
  \<open>getBaseAndHead\<close> (judge-diff.ts); \<open>verify ref\<close> says whether
  \<open>git rev-parse --verify ref\<close> succeeds.
\<close>

definition getBaseAndHead ::
  "(jsstring \<Rightarrow> bool) \<Rightarrow> jsstring option \<Rightarrow> jsstring option \<Rightarrow> jsstring \<times> jsstring" where
  "getBaseAndHead verify ciBaseSha ciHeadSha =
     (if truthy (map_option trim ciBaseSha) \<and> truthy (map_option trim ciHeadSha)
      then (trim (the ciBaseSha), trim (the ciHeadSha))
      else if verify (ascii ''origin/main'') then (ascii ''origin/main'', ascii ''HEAD'')
      else if verify (ascii ''origin/master'') then (ascii ''origin/master'', ascii ''HEAD'')
      else (ascii ''HEAD~1'', ascii ''HEAD''))"

datatype ValidateResult = ValidateOk jsvalue bool | ValidateFailed nat

text \<open>
  What \<open>run\<close> gets from outside the program: git, the two endpoints, and
  \<open>pathMatchesRequired\<close> with the extra patterns applied (required-patterns.ts is not
  among the sources read here).
\<close>

record gate_world =
  changed_files :: "exec_error + jsstring list"
  pathMatchesRequired :: "jsstring \<Rightarrow> bool"
  git_log_message :: "exec_error + jsstring"
  rev_parse_verify :: "jsstring \<Rightarrow> bool"
  git_diff :: "jsstring \<Rightarrow> jsstring \<Rightarrow> exec_error + jsstring"
  validateRef :: "jsstring \<Rightarrow> ValidateResult"
  fetch_judge :: "judge_request \<Rightarrow> fetch_outcome"
  div100 :: "rat \<Rightarrow> rat"

definition getPrOrCommitText :: "gate_config \<Rightarrow> gate_world \<Rightarrow> jsstring" where
  "getPrOrCommitText cfg w =
     (let parts = (if truthy (CI_PR_TITLE cfg) then [the (CI_PR_TITLE cfg)] else [])
                  @ (if truthy (CI_PR_BODY cfg) then [the (CI_PR_BODY cfg)] else [])
      in if length parts > 0 then join [LF, LF] parts
         else if truthy (CI_COMMIT_MESSAGE cfg) then the (CI_COMMIT_MESSAGE cfg)
         else (case git_log_message w of Inl e \<Rightarrow> [] | Inr out \<Rightarrow> out))"

text \<open>
  What a run did: how it ended (the exit code it returned, or an exception it threw),
  the references given to \<open>validateRef\<close> in order, and the requests sent to the
  judge endpoint. The lines written to the console are left out.
\<close>

datatype run_exit = Exit nat | Thrown

record run_result =
  exitCode :: run_exit
  validated :: "jsstring list"
  judge_requests :: "judge_request list"

text \<open>
  \<open>judgeUnavailable\<close> of lines 471 to 475, for a reason that is a string. The reason
  of a denied result is never null or undefined; when it is not a string either,
  \<open>toLowerCase\<close> is not a function and \<open>run\<close> throws.
\<close>

definition judgeUnavailable :: "jsstring \<Rightarrow> bool" where
  "judgeUnavailable rs =
     (let r = toLowerCase rs
      in includes_str r (ascii ''team plan'') \<or> includes_str r (ascii ''plan and above'')
         \<or> (includes_str r (ascii ''judge'') \<and> includes_str r (ascii ''available'')
             \<and> includes_str r (ascii ''plan'')))"

text \<open>Lines 418 to 514: what follows the first reference that validates.\<close>

definition judge_step ::
  "gate_config \<Rightarrow> gate_world \<Rightarrow> jsstring list \<Rightarrow> jsstring list \<Rightarrow> run_result" where
  "judge_step cfg w ids called =
     (if \<not> DECERN_GATE_JUDGE_ENABLED cfg
      then \<lparr>exitCode = Exit 0, validated = called, judge_requests = []\<rparr>
      else if \<not> truthy (DECERN_JUDGE_LLM_BASE_URL cfg) \<or> \<not> truthy (DECERN_JUDGE_LLM_API_KEY cfg)
              \<or> \<not> truthy (DECERN_JUDGE_LLM_MODEL cfg)
      then \<lparr>exitCode = Exit 1, validated = called, judge_requests = []\<rparr>
      else (let lastRef = last ids;
                (diffBase, diffHead) = getBaseAndHead (rev_parse_verify w) (CI_BASE_SHA cfg) (CI_HEAD_SHA cfg);
                judgeDiffResult = getDiffForJudge (git_diff w) diffBase diffHead;
                (judgeResult, sent) =
                   callJudge cfg (div100 w) (fetch_judge w)
                     \<lparr>decisionRef = lastRef,
                      param_diff = diff judgeDiffResult,
                      param_truncated = truncated judgeDiffResult,
                      baseSha = base judgeDiffResult,
                      headSha = head judgeDiffResult\<rparr>;
                code = (case judgeResult of
                          JudgeFailed status rs \<Rightarrow> Exit 1
                        | JudgeDenied rs adv conf \<Rightarrow>
                            (if adv = JBool True then Exit 0
                             else (case rs of
                                     JString s \<Rightarrow> if judgeUnavailable s then Exit 0 else Exit 1
                                   | _ \<Rightarrow> Thrown))
                        | JudgeAllowed rs conf msg \<Rightarrow>
                            (case (DECERN_JUDGE_MIN_CONFIDENCE cfg, conf) of
                               (Some m, Some c) \<Rightarrow> if c < m then Exit 1 else Exit 0
                             | _ \<Rightarrow> Exit 0))
            in \<lparr>exitCode = code, validated = called,
                judge_requests = (case sent of None \<Rightarrow> [] | Some rq \<Rightarrow> [rq])\<rparr>))"

text \<open>The loop of lines 400 to 517 over the references still to try.\<close>

fun validate_loop ::
  "gate_config \<Rightarrow> gate_world \<Rightarrow> jsstring list \<Rightarrow> jsstring list \<Rightarrow> jsstring list \<Rightarrow> run_result" where
  "validate_loop cfg w ids called [] =
     \<lparr>exitCode = Exit 1, validated = called, judge_requests = []\<rparr>"
| "validate_loop cfg w ids called (ident # rest) =
     (case validateRef w ident of
        ValidateOk status exhausted \<Rightarrow> judge_step cfg w ids (called @ [ident])
      | ValidateFailed status \<Rightarrow> validate_loop cfg w ids (called @ [ident]) rest)"

definition run :: "gate_config \<Rightarrow> gate_world \<Rightarrow> run_result" where
  "run cfg w =
     (case changed_files w of
        Inl e \<Rightarrow> \<lparr>exitCode = Exit 1, validated = [], judge_requests = []\<rparr>
      | Inr changedFiles \<Rightarrow>
          if \<not> (length (filter (pathMatchesRequired w) changedFiles) > 0)
          then \<lparr>exitCode = Exit 0, validated = [], judge_requests = []\<rparr>
          else (let ids = extractDecisionIds (getPrOrCommitText cfg w)
                in if length ids = 0
                   then \<lparr>exitCode = Exit 1, validated = [], judge_requests = []\<rparr>
                   else if \<not> truthy (DECERN_BASE_URL cfg) \<or> \<not> truthy (DECERN_CI_TOKEN cfg)
                   then \<lparr>exitCode = Exit 1, validated = [], judge_requests = []\<rparr>
                   else validate_loop cfg w ids [] ids))"

text \<open>The reference a request carries: its \<open>adrRef\<close> or its \<open>decisionId\<close>.\<close>

definition request_ref :: "judge_request \<Rightarrow> jsstring option" where
  "request_ref rq = (case req_adrRef rq of Some a \<Rightarrow> Some a | None \<Rightarrow> req_decisionId rq)"

subsection \<open>Where in the text a reference is found\<close>

text \<open>
  The match of a pattern at index \<open>i\<close> of the text, if there is one: its first group
  and its length.
\<close>

definition match_at :: "regex \<Rightarrow> jsstring \<Rightarrow> nat \<Rightarrow> (jsstring \<times> nat) option" where
  "match_at re text i =
     (if i < length text
      then re (if i = 0 then None else Some (text ! (i - 1))) (drop i text)
      else None)"

text \<open>
  What ECMAScript says of \<open>exec\<close> on a global pattern: it matches at the least index
  from \<open>lastIndex\<close> on at which the pattern matches, and sets \<open>lastIndex\<close> to the end
  of that match. \<open>found re str k i\<close>: a loop of \<open>exec\<close> calls that starts with
  \<open>lastIndex = k\<close> gets a match at index \<open>i\<close> in one of its rounds.
\<close>

inductive found :: "regex \<Rightarrow> jsstring \<Rightarrow> nat \<Rightarrow> nat \<Rightarrow> bool"
  for re :: "regex" and str :: "jsstring" where
  first:
    "k \<le> i \<Longrightarrow> match_at re str i = Some (m, n)
     \<Longrightarrow> (\<forall>j. k \<le> j \<and> j < i \<longrightarrow> match_at re str j = None)
     \<Longrightarrow> found re str k i"
| later:
    "k \<le> i \<Longrightarrow> match_at re str i = Some (m, n)
     \<Longrightarrow> (\<forall>j. k \<le> j \<and> j < i \<longrightarrow> match_at re str j = None)
     \<Longrightarrow> found re str (i + n) i'
     \<Longrightarrow> found re str k i'"

text \<open>A pattern makes progress when none of its matches is empty.\<close>

definition progresses :: "regex \<Rightarrow> bool" where
  "progresses re = (\<forall>prev s m n. re prev s = Some (m, n) \<longrightarrow> 1 \<le> n)"

text \<open>The four forms, in the order in which \<open>extractDecisionIds\<close> goes through them.\<close>

definition families :: "regex list" where
  "families = [DECERN_PREFIX, DECERN_TICKET, DECISIONS_URL, ADR_REF]"

text \<open>
  \<open>mention text f i x\<close>: the scan for form number \<open>f\<close> finds a match at index \<open>i\<close> of
  the text, and \<open>x\<close> is the reference it gives (the first group, trimmed).
\<close>

definition mention :: "jsstring \<Rightarrow> nat \<Rightarrow> nat \<Rightarrow> jsstring \<Rightarrow> bool" where
  "mention text f i x =
     (f < length families \<and> found (families ! f) text 0 i
      \<and> (case match_at (families ! f) text i of
            Some (m, n) \<Rightarrow> trim m = x
          | None \<Rightarrow> False))"

section \<open>Raw diffs of the sizes the properties speak of\<close>

text \<open>
  Each section is a header line, as git writes it, and a body of \<open>n\<close> equal code
  units; the raw diffs are sections separated by a line feed, with a line feed at the
  end. U+0078 is the letter x, one byte in UTF-8; U+00E9 is two bytes.
\<close>

definition sectionP :: jsstring where
  "sectionP = ascii ''diff --git a/p.txt b/p.txt\<newline>'' @ replicate 1048549 0x78"

definition sectionQ :: jsstring where
  "sectionQ = ascii ''diff --git a/q.txt b/q.txt\<newline>'' @ replicate 1048549 0x78"

definition raw_two_full :: jsstring where
  "raw_two_full = sectionP @ [LF] @ sectionQ @ [LF]"

definition sectionQ_short :: jsstring where
  "sectionQ_short = ascii ''diff --git a/q.txt b/q.txt\<newline>'' @ replicate 1048449 0x78"

definition sectionR :: jsstring where
  "sectionR = ascii ''diff --git a/r.txt b/r.txt\<newline>'' @ replicate 100 0xE9"

definition raw_three_cut :: jsstring where
  "raw_three_cut = sectionP @ [LF] @ sectionQ_short @ [LF] @ sectionR @ [LF]"

definition section_big :: jsstring where
  "section_big = ascii ''diff --git a/big.txt b/big.txt\<newline>'' @ replicate 2999969 0x78"

definition raw_big :: jsstring where
  "raw_big = section_big @ [LF]"

definition sectionA :: jsstring where
  "sectionA = ascii ''diff --git a/A.txt b/A.txt\<newline>'' @ replicate 499973 0x78"

definition sectionB :: jsstring where
  "sectionB = ascii ''diff --git a/B.txt b/B.txt\<newline>'' @ replicate 1199973 0x78"

definition sectionC :: "nat \<Rightarrow> jsstring" where
  "sectionC n = ascii ''diff --git a/C.png b/C.png\<newline>'' @ replicate n 0x78"

definition raw_abc :: "nat \<Rightarrow> jsstring" where
  "raw_abc n = sectionA @ [LF] @ sectionB @ [LF] @ sectionC n @ [LF]"

definition raw_small :: jsstring where
  "raw_small = ascii ''diff --git a/a.png b/a.png\<newline>Binary files differ\<newline>diff --git a/b.pdf b/b.pdf\<newline>+x\<newline>diff --git a/a.png b/a.png\<newline>y\<newline>''"

definition git_gives :: "jsstring \<Rightarrow> jsstring \<Rightarrow> jsstring \<Rightarrow> exec_error + jsstring" where
  "git_gives fullRaw b h = Inr fullRaw"

definition git_fails :: "jsstring \<Rightarrow> jsstring \<Rightarrow> exec_error + jsstring" where
  "git_fails b h = Inl ExecError"

definition rev_base :: jsstring where
  "rev_base = ascii ''origin/main''"

definition rev_head :: jsstring where
  "rev_head = ascii ''HEAD''"

definition text_repeated :: jsstring where
  "text_repeated = ascii ''decern:id1 DECERN-id1 /decisions/id1 ADR-7''"

text \<open>A configuration with the judge enabled, a response with a given confidence, a world.\<close>

definition cfg_sample :: gate_config where
  "cfg_sample =
     \<lparr>DECERN_BASE_URL = Some (ascii ''https://decern.example''),
      DECERN_CI_TOKEN = Some (ascii ''token''),
      CI_BASE_SHA = None,
      CI_HEAD_SHA = None,
      CI_PR_TITLE = Some text_repeated,
      CI_PR_BODY = None,
      CI_COMMIT_MESSAGE = None,
      DECERN_GATE_JUDGE_ENABLED = True,
      DECERN_JUDGE_LLM_BASE_URL = Some (ascii ''https://llm.example''),
      DECERN_JUDGE_LLM_API_KEY = Some (ascii ''key''),
      DECERN_JUDGE_LLM_MODEL = Some (ascii ''model''),
      DECERN_JUDGE_MIN_CONFIDENCE = None\<rparr>"

definition data_sample :: "rat \<Rightarrow> judge_data" where
  "data_sample c =
     \<lparr>allowed = JBool True, reason = JUndefined, advisory = JUndefined,
      confidence = JNumber (Finite c), advisoryMessage = JUndefined\<rparr>"

definition fetch_sample :: "rat \<Rightarrow> judge_request \<Rightarrow> fetch_outcome" where
  "fetch_sample c rq = Response 200 (BodyFields (data_sample c))"

definition params_sample :: judge_params where
  "params_sample =
     \<lparr>decisionRef = ascii ''ADR-7'', param_diff = [], param_truncated = False,
      baseSha = rev_base, headSha = rev_head\<rparr>"

definition world_sample :: gate_world where
  "world_sample =
     \<lparr>changed_files = Inr [ascii ''package.json''],
      pathMatchesRequired = (\<lambda>p. p = ascii ''package.json''),
      git_log_message = Inl ExecError,
      rev_parse_verify = (\<lambda>r. r = ascii ''origin/main''),
      git_diff = git_fails,
      validateRef = (\<lambda>r. if r = ascii ''id1'' then ValidateOk (JString (ascii ''approved'')) False
                          else ValidateFailed 422),
      fetch_judge = fetch_sample (17 / 20),
      div100 = exact_div100\<rparr>"

definition request_sample :: judge_request where
  "request_sample =
     \<lparr>req_diff = [], req_truncated = False, req_baseSha = rev_base, req_headSha = rev_head,
      req_adrRef = Some (ascii ''ADR-7''), req_decisionId = None\<rparr>"

definition text_two_forms :: jsstring where
  "text_two_forms = ascii ''decern:a decern:b DECERN-c DECERN-b''"

definition text_adr_first :: jsstring where
  "text_adr_first = ascii ''ADR-1 decern:x''"

section \<open>Trimming and splitting\<close>

lemma dropWhile_snoc_nonempty: "\<not> P d \<Longrightarrow> dropWhile P (xs @ [d]) \<noteq> []"
  by (induction xs) auto

lemma trimEnd_Cons_nonempty: "\<not> isWhiteSpace c \<Longrightarrow> trimEnd (c # cs) \<noteq> []"
  by (simp add: trimEnd_def dropWhile_snoc_nonempty)

lemma trim_not_ws_hd: "\<not> isWhiteSpace c \<Longrightarrow> trim (c # cs) \<noteq> []"
  by (simp add: trim_def trimStart_def trimEnd_Cons_nonempty)

lemma trim_Nil: "trim [] = []"
  by (simp add: trim_def trimStart_def trimEnd_def)

lemma trim_fixed:
  assumes "s \<noteq> []" "\<not> isWhiteSpace (hd s)" "\<not> isWhiteSpace (last s)"
  shows "trim s = s"
proof -
  from assms have a: "dropWhile isWhiteSpace s = s" by (cases s) auto
  from assms have "rev s \<noteq> []" "\<not> isWhiteSpace (hd (rev s))" by (auto simp: hd_rev)
  then have "dropWhile isWhiteSpace (rev s) = rev s" by (cases "rev s") auto
  with a show ?thesis by (simp add: trim_def trimStart_def trimEnd_def)
qed

lemma trim_ends:
  assumes "trim s \<noteq> []"
  shows "\<not> isWhiteSpace (hd (trim s)) \<and> \<not> isWhiteSpace (last (trim s))"
proof -
  define a where "a = dropWhile isWhiteSpace s"
  define b where "b = dropWhile isWhiteSpace (rev a)"
  have t: "trim s = rev b" by (simp add: trim_def trimStart_def trimEnd_def a_def b_def)
  with assms have bne: "b \<noteq> []" by simp
  then have ane: "a \<noteq> []" by (auto simp: b_def)
  have hb: "\<not> isWhiteSpace (hd b)" using bne unfolding b_def by (rule hd_dropWhile)
  have ha: "\<not> isWhiteSpace (hd a)" using ane unfolding a_def by (rule hd_dropWhile)
  obtain ys where ys: "rev a = ys @ b" unfolding b_def
    by (metis takeWhile_dropWhile_id)
  with bne have "last b = last (rev a)" by simp
  also have "\<dots> = hd a" using ane by (simp add: last_rev)
  finally have lb: "last b = hd a" .
  show ?thesis using hb ha lb bne by (simp add: t hd_rev last_rev)
qed

lemma trim_idem: "trim (trim s) = trim s"
proof (cases "trim s = []")
  case True then show ?thesis by (simp add: trim_Nil)
next
  case False
  with trim_ends[OF False] show ?thesis by (intro trim_fixed) auto
qed

lemma split_lookahead_not_Nil: "split_lookahead s \<noteq> []"
  by (induction s) (auto split: list.splits)

lemma concat_split_lookahead: "concat (split_lookahead s) = s"
  by (induction s) (auto split: list.splits simp: split_lookahead_not_Nil)

lemma split_marker_unfold: "split_marker = [0x0A, 0x64, 0x69, 0x66, 0x66, 0x20, 0x2D, 0x2D, 0x67, 0x69, 0x74, 0x20]"
  by (simp add: split_marker_def ascii_def)

lemma hd_split_lookahead_Cons: "\<exists>r. hd (split_lookahead (c # cs)) = c # r"
  by (auto split: list.splits)

lemma hd_split_lookahead_marker:
  assumes "prefix split_marker cs"
  shows "prefix split_marker (hd (split_lookahead cs))"
proof -
  from assms obtain r where cs: "cs = split_marker @ r" by (auto elim: prefixE)
  obtain t where t: "hd (split_lookahead (0x20 # r)) = 0x20 # t"
    using hd_split_lookahead_Cons by blast
  have ne: "split_lookahead (0x20 # r) \<noteq> []" by (rule split_lookahead_not_Nil)
  then obtain p ps where pp: "split_lookahead (0x20 # r) = p # ps" by (cases "split_lookahead (0x20 # r)") auto
  with t have p: "p = 0x20 # t" by simp
  show ?thesis unfolding cs using pp p
    by (simp add: split_marker_unfold del: split_lookahead.simps(2) add: split_lookahead.simps(2)[of _ "_ # _"])
qed

lemma split_lookahead_tl: "p \<in> set (tl (split_lookahead s)) \<Longrightarrow> prefix split_marker p"
proof (induction s arbitrary: p)
  case Nil then show ?case by simp
next
  case (Cons c cs)
  show ?case
  proof (cases "prefix split_marker cs")
    case True
    with Cons.prems have "p \<in> set (split_lookahead cs)" by simp
    then have "p = hd (split_lookahead cs) \<or> p \<in> set (tl (split_lookahead cs))"
      by (cases "split_lookahead cs") auto
    then show ?thesis using hd_split_lookahead_marker[OF True] Cons.IH by auto
  next
    case False
    then show ?thesis using Cons by (auto split: list.splits)
  qed
qed

section \<open>Deduplication, the failure of git, the segments\<close>

lemma set_new_Set: "set (new_Set xs) = set xs"
  by (induction xs rule: rev_induct) (auto simp: new_Set_def Set_add_def)

lemma new_Set_snoc: "new_Set (xs @ [x]) = (if x \<in> set xs then new_Set xs else new_Set xs @ [x])"
  using set_new_Set[of xs] by (simp add: new_Set_def Set_add_def)

lemma new_Set_Nil: "new_Set [] = []"
  by (simp add: new_Set_def)

lemma distinct_new_Set: "distinct (new_Set xs)"
  by (induction xs rule: rev_induct) (auto simp: new_Set_snoc set_new_Set new_Set_Nil)

lemma first_index_less: "x \<in> set xs \<Longrightarrow> first_index xs x < length xs"
  unfolding first_index_def by (induction xs) auto

lemma first_index_append_mem: "x \<in> set xs \<Longrightarrow> first_index (xs @ ys) x = first_index xs x"
  unfolding first_index_def by (simp add: takeWhile_append1)

lemma first_index_snoc_new: "x \<notin> set xs \<Longrightarrow> first_index (xs @ [x]) x = length xs"
  unfolding first_index_def by (induction xs) auto

lemma new_Set_order: "sorted_wrt (<) (map (first_index xs) (new_Set xs))"
proof (induction xs rule: rev_induct)
  case Nil then show ?case by (simp add: new_Set_Nil)
next
  case (snoc x xs)
  have eq: "map (first_index (xs @ [x])) (new_Set xs) = map (first_index xs) (new_Set xs)"
    by (rule map_cong[OF refl]) (simp add: set_new_Set first_index_append_mem)
  show ?case
  proof (cases "x \<in> set xs")
    case True then show ?thesis using snoc by (simp add: new_Set_snoc eq)
  next
    case False
    then show ?thesis using snoc
      by (auto simp: new_Set_snoc eq sorted_wrt_append first_index_snoc_new set_new_Set first_index_less)
  qed
qed

lemma new_Set_order_nth:
  assumes "i < j" "j < length (new_Set xs)"
  shows "first_index xs (new_Set xs ! i) < first_index xs (new_Set xs ! j)"
  using new_Set_order[of xs] assms by (simp add: sorted_wrt_iff_nth_less)


text \<open>
  C6. When the git command fails for the two revisions, \<open>getDiffForJudge\<close> returns
  the empty result: an empty diff, no excluded files, \<open>truncated\<close> false, and the two
  revisions it was given. The error does not leave the function.
\<close>

theorem git_failure_gives_empty_result:
  "g b h = Inl e \<Longrightarrow>
   getDiffForJudge g b h = \<lparr>diff = [], excludedFiles = [], truncated = False, base = b, head = h\<rparr>"
  by (simp add: getDiffForJudge_def)

lemma split_segments_not_Nil:
  assumes "trim rawDiff \<noteq> []"
  shows "split_segments rawDiff \<noteq> []"
proof (cases "split_lookahead rawDiff")
  case Nil then show ?thesis using split_lookahead_not_Nil by simp
next
  case (Cons p ps)
  show ?thesis
  proof (cases ps)
    case Nil
    with Cons concat_split_lookahead[of rawDiff] have "p = rawDiff" by simp
    with Cons Nil assms show ?thesis by (simp add: split_segments_def)
  next
    case (Cons q qs)
    with \<open>split_lookahead rawDiff = p # ps\<close> have "q \<in> set (tl (split_lookahead rawDiff))" by simp
    then have "prefix split_marker q" by (rule split_lookahead_tl)
    then obtain r where "q = split_marker @ r" by (auto elim: prefixE)
    then have "trim q \<noteq> []"
      by (simp add: split_marker_unfold trim_def trimStart_def isWhiteSpace_def trimEnd_Cons_nonempty)
    then show ?thesis using Cons \<open>split_lookahead rawDiff = p # ps\<close>
      by (auto simp: split_segments_def filter_empty_conv)
  qed
qed

lemma split_segments_trimmed: "s \<in> set (split_segments rawDiff) \<Longrightarrow> s \<noteq> [] \<and> trim s = s"
  by (auto simp: split_segments_def trim_idem)

lemma not_fallback_condition: "\<not> fallback_condition rawDiff"
  using split_segments_not_Nil[of rawDiff] by (auto simp: fallback_condition_def)

lemma splitDiffByFile_eq: "splitDiffByFile rawDiff = (if trim rawDiff = [] then [] else split_segments rawDiff)"
  by (auto simp: splitDiffByFile_def not_fallback_condition Let_def trim_Nil)

text \<open>
  C9. For every input whose trimmed form is not empty, \<open>splitDiffByFile\<close> returns at
  least one segment, and every segment it returns is a non-empty string that trimming
  leaves as it is. The condition of the fallback branch (no segments, although the
  trimmed input is not empty) holds for no input, so that branch is never taken.
\<close>

theorem splitDiffByFile_nonempty_trimmed:
  "\<not> fallback_condition rawDiff \<and>
   (trim rawDiff \<noteq> [] \<longrightarrow>
      length (splitDiffByFile rawDiff) \<ge> 1 \<and>
      (\<forall>s\<in>set (splitDiffByFile rawDiff). s \<noteq> [] \<and> trim s = s))"
  using split_segments_not_Nil[of rawDiff]
  by (auto simp: splitDiffByFile_eq not_fallback_condition split_segments_trimmed Suc_le_eq)

section \<open>Byte lengths and the budget loop\<close>

subsection \<open>Byte lengths\<close>

lemma byteLength_Cons:
  "\<not> isHighSurrogate c \<Longrightarrow> byteLength (c # s) = byteLength [c] + byteLength s"
  by (cases s) auto

lemma byteLength_Cons_not_low:
  "s = [] \<or> \<not> isLowSurrogate (hd s) \<Longrightarrow> byteLength (c # s) = byteLength [c] + byteLength s"
  by (cases s) auto

lemma byteLength_append_left:
  "\<forall>c\<in>set a. \<not> isHighSurrogate c \<Longrightarrow> byteLength (a @ b) = byteLength a + byteLength b"
  by (induction a) (simp_all add: byteLength_Cons)

lemma byteLength_append_right:
  "b = [] \<or> \<not> isLowSurrogate (hd b) \<Longrightarrow> byteLength (a @ b) = byteLength a + byteLength b"
proof (induction a rule: byteLength.induct)
  case 1 then show ?case by simp
next
  case (2 c) then show ?case by (simp add: byteLength_Cons_not_low)
next
  case (3 c d ds) then show ?case by auto
qed

lemma byteLength_replicate:
  "\<not> isHighSurrogate c \<Longrightarrow> byteLength (replicate n c) = n * byteLength [c]"
  by (induction n) (simp_all add: byteLength_Cons)

lemma ascii_not_high: "c < 0x80 \<Longrightarrow> \<not> isHighSurrogate c"
  unfolding isHighSurrogate_def by unat_arith

lemma low_not_high: "isLowSurrogate c \<Longrightarrow> \<not> isHighSurrogate c"
  unfolding isHighSurrogate_def isLowSurrogate_def by unat_arith

lemma low_not_small: "isLowSurrogate c \<Longrightarrow> \<not> c < 0x800 \<and> \<not> c < 0x80"
  unfolding isLowSurrogate_def by unat_arith

lemma byteLength_Cons_bounds:
  "byteLength s \<le> byteLength (c # s) \<and> byteLength (c # s) \<le> 3 + byteLength s"
proof (cases s)
  case Nil then show ?thesis by simp
next
  case (Cons d ds)
  show ?thesis
  proof (cases "isHighSurrogate c \<and> isLowSurrogate d")
    case True
    then have "byteLength (d # ds) = byteLength [d] + byteLength ds"
      by (simp add: byteLength_Cons low_not_high)
    moreover have "byteLength [d] = 3" using True low_not_small[of d] by auto
    ultimately show ?thesis using Cons True by auto
  next
    case False
    then show ?thesis using Cons by auto
  qed
qed

lemma byteLength_ascii_Cons: "c < 0x80 \<Longrightarrow> byteLength (c # s) = Suc (byteLength s)"
  by (simp add: byteLength_Cons ascii_not_high)

lemma whitespace_not_surrogate: "isWhiteSpace c \<Longrightarrow> \<not> isHighSurrogate c \<and> \<not> isLowSurrogate c"
  unfolding isWhiteSpace_def isHighSurrogate_def isLowSurrogate_def by unat_arith

lemma byteLength_dropWhile_ws: "byteLength (dropWhile isWhiteSpace s) \<le> byteLength s"
proof -
  have "byteLength (takeWhile isWhiteSpace s @ dropWhile isWhiteSpace s)
        = byteLength (takeWhile isWhiteSpace s) + byteLength (dropWhile isWhiteSpace s)"
    by (rule byteLength_append_left) (auto dest: set_takeWhileD whitespace_not_surrogate)
  then show ?thesis by simp
qed

lemma byteLength_trimEnd: "byteLength (trimEnd s) \<le> byteLength s"
proof -
  define w where "w = rev (takeWhile isWhiteSpace (rev s))"
  have s: "s = trimEnd s @ w"
    unfolding w_def trimEnd_def by (metis rev_append rev_rev_ident takeWhile_dropWhile_id)
  have "w = [] \<or> \<not> isLowSurrogate (hd w)"
  proof (cases w)
    case Nil then show ?thesis by simp
  next
    case (Cons a as)
    then have "a \<in> set (takeWhile isWhiteSpace (rev s))" unfolding w_def
      by (metis list.set_intros(1) set_rev)
    then have "isWhiteSpace a" by (rule set_takeWhileD[THEN conjunct2])
    then show ?thesis using Cons whitespace_not_surrogate by simp
  qed
  then have "byteLength (trimEnd s @ w) = byteLength (trimEnd s) + byteLength w"
    by (rule byteLength_append_right)
  with s show ?thesis by simp
qed

lemma byteLength_trim: "byteLength (trim s) \<le> byteLength s"
  unfolding trim_def trimStart_def
  using byteLength_trimEnd[of "dropWhile isWhiteSpace s"] byteLength_dropWhile_ws[of s] by simp

lemma byteLength_split_lookahead:
  "p \<in> set (split_lookahead s) \<Longrightarrow> byteLength p \<le> byteLength s"
proof (induction s arbitrary: p)
  case Nil then show ?case by simp
next
  case (Cons c cs)
  obtain q qs where q: "split_lookahead cs = q # qs"
    using split_lookahead_not_Nil by (cases "split_lookahead cs") auto
  have cs_le: "byteLength cs \<le> byteLength (c # cs)"
    using byteLength_Cons_bounds by blast
  show ?case
  proof (cases "prefix split_marker cs")
    case True
    then obtain r where r: "cs = split_marker @ r" by (auto elim: prefixE)
    have c1: "byteLength [c] \<le> byteLength (c # cs)" by (cases cs) auto
    from Cons.prems True have "p = [c] \<or> p \<in> set (split_lookahead cs)" by auto
    then show ?thesis using c1 Cons.IH cs_le by (auto intro: order_trans)
  next
    case False
    with Cons.prems q have "p = c # q \<or> p \<in> set qs" by auto
    then show ?thesis
    proof
      assume p: "p = c # q"
      have qcs: "prefix q cs" using concat_split_lookahead[of cs] q by (metis concat.simps(2) prefixI)
      then obtain t where t: "cs = q @ t" by (auto elim: prefixE)
      have "t = [] \<or> \<not> isLowSurrogate (hd t)"
      proof (cases qs)
        case Nil
        with q concat_split_lookahead[of cs] t show ?thesis by simp
      next
        case (Cons q2 qs2)
        with q have "q2 \<in> set (tl (split_lookahead cs))" by simp
        then have "prefix split_marker q2" by (rule split_lookahead_tl)
        then obtain u where "q2 = split_marker @ u" by (auto elim: prefixE)
        moreover have "t = concat qs" using concat_split_lookahead[of cs] q t by simp
        ultimately show ?thesis using Cons by (simp add: split_marker_unfold isLowSurrogate_def)
      qed
      then have "byteLength ((c # q) @ t) = byteLength (c # q) + byteLength t"
        by (rule byteLength_append_right)
      then show ?thesis using p t by simp
    next
      assume "p \<in> set qs"
      with q have "p \<in> set (split_lookahead cs)" by simp
      then show ?thesis using Cons.IH cs_le by (auto intro: order_trans)
    qed
  qed
qed

lemma byteLength_split_segments:
  "seg \<in> set (split_segments rawDiff) \<Longrightarrow> byteLength seg \<le> byteLength rawDiff"
  using byteLength_trim byteLength_split_lookahead
  by (fastforce simp: split_segments_def intro: order_trans)

lemma byteLength_splitDiffByFile:
  "seg \<in> set (splitDiffByFile rawDiff) \<Longrightarrow> byteLength seg \<le> byteLength rawDiff"
  by (auto simp: splitDiffByFile_eq byteLength_split_segments split: if_splits)

subsection \<open>The loop body, case by case\<close>

lemma loop_body_excluded:
  assumes "(pathFromSegment seg \<noteq> [] \<and> isImageOrHeavyByPath (pathFromSegment seg))
           \<or> segmentIsBinary seg \<or> byteLength seg > MAX_FILE_DIFF_BYTES"
  shows "loop_body st seg = push_path (pathFromSegment seg) st"
  using assms by (auto simp: loop_body_def Let_def)

lemma loop_body_admitted:
  assumes "pathFromSegment seg = [] \<or> \<not> isImageOrHeavyByPath (pathFromSegment seg)"
    and "\<not> segmentIsBinary seg" and "byteLength seg \<le> MAX_FILE_DIFF_BYTES"
    and "totalBytes st + byteLength seg \<le> MAX_DIFF_BYTES"
  shows "loop_body st seg =
         st\<lparr>included := included st @ [seg], totalBytes := totalBytes st + byteLength seg\<rparr>"
  using assms by (auto simp: loop_body_def Let_def)

lemma loop_body_cut:
  assumes "pathFromSegment seg = [] \<or> \<not> isImageOrHeavyByPath (pathFromSegment seg)"
    and "\<not> segmentIsBinary seg" and "byteLength seg \<le> MAX_FILE_DIFF_BYTES"
    and "MAX_DIFF_BYTES < totalBytes st + byteLength seg" and "totalBytes st < MAX_DIFF_BYTES"
  shows "loop_body st seg =
         push_path (pathFromSegment seg)
           (st\<lparr>included := included st @ [take (MAX_DIFF_BYTES - totalBytes st) seg],
               totalBytes := MAX_DIFF_BYTES, didTruncate := True\<rparr>)"
  using assms by (auto simp: loop_body_def Let_def)

lemma run_loop_1: "run_loop [a] = loop_body loop_init a"
  by (simp add: run_loop_def)

lemma run_loop_2: "run_loop [a, b] = loop_body (loop_body loop_init a) b"
  by (simp add: run_loop_def)


subsection \<open>Extensions\<close>







subsection \<open>Results for one and for three sections\<close>

lemma new_Set_single: "new_Set [x] = [x]"
  by (simp add: new_Set_def Set_add_def)


lemma single_oversized_result:
  assumes git: "g b h = Inr fullRaw"
    and single: "splitDiffByFile fullRaw = [seg]"
    and big: "3000000 \<le> byteLength seg"
  shows "getDiffForJudge g b h =
         \<lparr>diff = [],
          excludedFiles = (if pathFromSegment seg = [] then [] else [pathFromSegment seg]),
          truncated = True, base = b, head = h\<rparr>"
proof -
  have over: "byteLength seg > MAX_FILE_DIFF_BYTES"
    using big by (simp add: MAX_FILE_DIFF_BYTES_def)
  have st: "run_loop [seg] = push_path (pathFromSegment seg) loop_init"
    using over by (simp add: run_loop_1 loop_body_excluded)
  have "byteLength seg \<le> byteLength fullRaw"
    by (rule byteLength_splitDiffByFile) (simp add: single)
  then have raw: "byteLength fullRaw > MAX_DIFF_BYTES"
    using big by (simp add: MAX_DIFF_BYTES_def)
  show ?thesis
    using git raw
    by (simp add: getDiffForJudge_def diff_of_raw_def single st push_path_def loop_init_def
        new_Set_single new_Set_Nil)
qed


subsection \<open>Bodies of equal code units\<close>

lemma prefix_replicate_other:
  "0 < n \<Longrightarrow> a \<noteq> c \<Longrightarrow> \<not> prefix (a # as) (replicate n c @ rest)"
  by (cases n) auto

lemma prefix_replicate_only: "a \<noteq> c \<Longrightarrow> \<not> prefix (a # as) (replicate n c)"
  by (cases n) auto

lemma split_lookahead_replicate:
  assumes "c \<noteq> 0x0A" "0 < n"
  shows "split_lookahead (replicate n c @ rest) =
         (if prefix split_marker rest then replicate n c # split_lookahead rest
          else (case split_lookahead rest of
                  p # ps \<Rightarrow> (replicate n c @ p) # ps
                | [] \<Rightarrow> [replicate n c]))"
  using assms(2)
proof (induction n)
  case 0 then show ?case by simp
next
  case (Suc n)
  show ?case
  proof (cases "n = 0")
    case True
    then show ?thesis by (auto split: list.splits)
  next
    case False
    then have "\<not> prefix split_marker (replicate n c @ rest)"
      using assms(1) by (simp add: split_marker_unfold prefix_replicate_other)
    then show ?thesis using Suc False by (auto split: list.splits)
  qed
qed

lemma includes_str_replicate:
  "a \<noteq> c \<Longrightarrow> includes_str (replicate n c @ rest) (a # as) = includes_str rest (a # as)"
proof (induction n)
  case 0 then show ?case by simp
next
  case (Suc n)
  have "\<not> prefix (a # as) (replicate (Suc n) c @ rest)"
    using Suc.prems by (rule prefix_replicate_other[OF zero_less_Suc])
  then show ?case using Suc by simp
qed

lemma trim_strip:
  assumes "s \<noteq> []" "\<not> isWhiteSpace (hd s)" "\<not> isWhiteSpace (last s)"
    and "\<forall>c\<in>set a. isWhiteSpace c" "\<forall>c\<in>set b. isWhiteSpace c"
  shows "trim (a @ s @ b) = s"
proof -
  have 1: "dropWhile isWhiteSpace (a @ s @ b) = s @ b"
    using assms(1,2,4) by (cases s) (auto simp: dropWhile_append)
  have 2: "dropWhile isWhiteSpace (rev b @ rev s) = rev s"
    using assms(1,3,5) by (cases s rule: rev_cases) (auto simp: dropWhile_append)
  show ?thesis by (simp add: trim_def trimStart_def trimEnd_def 1 2)
qed

lemma byteLength_ascii_append:
  "\<forall>c\<in>set a. c < 0x80 \<Longrightarrow> byteLength (a @ b) = length a + byteLength b"
  by (induction a) (simp_all add: byteLength_ascii_Cons)

lemma byteLength_replicate_append:
  "\<not> isHighSurrogate c \<Longrightarrow> byteLength (replicate n c @ rest) = n * byteLength [c] + byteLength rest"
  by (simp add: byteLength_append_left byteLength_replicate)

subsection \<open>The sample sections\<close>

lemmas section_defs = sectionP_def sectionQ_def sectionQ_short_def sectionR_def section_big_def
  sectionA_def sectionB_def sectionC_def
lemmas str_defs = ascii_def LF_def isWhiteSpace_def
lemmas path_defs = isLineTerminator_def pathFromSegment_def trim_def trimStart_def trimEnd_def
lemmas ext_defs = toLowerCase_unit_def toLowerCase_def IMAGE_OR_HEAVY_EXTENSIONS_def isImageOrHeavyByPath_def
lemmas bytes_simps = byteLength_ascii_Cons byteLength_replicate byteLength_replicate_append
  isHighSurrogate_def
lemmas split_simps = split_marker_unfold split_lookahead_replicate prefix_replicate_other
  prefix_replicate_only

lemma section_paths:
  "pathFromSegment sectionP = ascii ''p.txt''"
  "pathFromSegment sectionQ = ascii ''q.txt''"
  "pathFromSegment sectionQ_short = ascii ''q.txt''"
  "pathFromSegment sectionR = ascii ''r.txt''"
  "pathFromSegment section_big = ascii ''big.txt''"
  "pathFromSegment sectionA = ascii ''A.txt''"
  "pathFromSegment sectionB = ascii ''B.txt''"
  "pathFromSegment (sectionC n) = ascii ''C.png''"
  by (simp_all add: section_defs str_defs path_defs)

lemma text_paths_not_image:
  "\<not> isImageOrHeavyByPath (ascii ''p.txt'')"
  "\<not> isImageOrHeavyByPath (ascii ''q.txt'')"
  "\<not> isImageOrHeavyByPath (ascii ''r.txt'')"
  "\<not> isImageOrHeavyByPath (ascii ''A.txt'')"
  by (simp_all add: str_defs ext_defs)

lemma sections_not_binary:
  "\<not> segmentIsBinary sectionP"
  "\<not> segmentIsBinary sectionQ"
  "\<not> segmentIsBinary sectionQ_short"
  "\<not> segmentIsBinary sectionR"
  "\<not> segmentIsBinary sectionA"
  by (simp_all add: section_defs segmentIsBinary_def ascii_def
      includes_str_replicate[where rest="[]", simplified])

lemma section_bytes:
  "byteLength sectionP = 1048576"
  "byteLength sectionQ = 1048576"
  "byteLength sectionQ_short = 1048476"
  "byteLength sectionR = 227"
  "byteLength section_big = 3000000"
  "byteLength sectionA = 500000"
  "byteLength sectionB = 1200000"
  "byteLength (sectionC n) = 27 + n"
  by (simp_all add: section_defs ascii_def bytes_simps del: byteLength.simps(3))

lemma section_ends:
  "sectionP \<noteq> [] \<and> \<not> isWhiteSpace (hd sectionP) \<and> \<not> isWhiteSpace (last sectionP)"
  "sectionQ \<noteq> [] \<and> \<not> isWhiteSpace (hd sectionQ) \<and> \<not> isWhiteSpace (last sectionQ)"
  "sectionQ_short \<noteq> [] \<and> \<not> isWhiteSpace (hd sectionQ_short) \<and> \<not> isWhiteSpace (last sectionQ_short)"
  "sectionR \<noteq> [] \<and> \<not> isWhiteSpace (hd sectionR) \<and> \<not> isWhiteSpace (last sectionR)"
  "section_big \<noteq> [] \<and> \<not> isWhiteSpace (hd section_big) \<and> \<not> isWhiteSpace (last section_big)"
  "sectionA \<noteq> [] \<and> \<not> isWhiteSpace (hd sectionA) \<and> \<not> isWhiteSpace (last sectionA)"
  "sectionB \<noteq> [] \<and> \<not> isWhiteSpace (hd sectionB) \<and> \<not> isWhiteSpace (last sectionB)"
  "0 < n \<Longrightarrow> sectionC n \<noteq> [] \<and> \<not> isWhiteSpace (hd (sectionC n)) \<and> \<not> isWhiteSpace (last (sectionC n))"
  by (simp_all add: section_defs str_defs)

lemma section_nonempty:
  "[] \<noteq> sectionP" "[] \<noteq> sectionQ" "[] \<noteq> sectionQ_short" "[] \<noteq> sectionR"
  "[] \<noteq> section_big" "[] \<noteq> sectionA" "[] \<noteq> sectionB" "[] \<noteq> sectionC n"
  by (simp_all add: section_defs ascii_def)

lemma trim_between:
  assumes "s \<noteq> [] \<and> \<not> isWhiteSpace (hd s) \<and> \<not> isWhiteSpace (last s)"
  shows "trim s = s" "trim (LF # s) = s" "trim (s @ [LF]) = s" "trim (LF # s @ [LF]) = s"
  using assms trim_strip[of s "[]" "[]"] trim_strip[of s "[LF]" "[]"] trim_strip[of s "[]" "[LF]"]
    trim_strip[of s "[LF]" "[LF]"]
  by (simp_all add: LF_def isWhiteSpace_def)

lemma segments_from_pieces:
  assumes "trim rawDiff \<noteq> []" and "split_lookahead rawDiff = ps" and "map trim ps = segs"
    and "[] \<notin> set segs"
  shows "splitDiffByFile rawDiff = segs"
proof -
  have "filter (\<lambda>s. s \<noteq> []) segs = segs"
    using assms(4) by (induction segs) auto
  then have "split_segments rawDiff = segs"
    using assms(2,3) by (simp add: split_segments_def)
  then show ?thesis using assms(1) by (simp add: splitDiffByFile_eq)
qed

lemma raws_not_blank:
  "trim raw_two_full \<noteq> []" "trim raw_three_cut \<noteq> []" "trim raw_big \<noteq> []"
  "trim (raw_abc n) \<noteq> []"
  by (simp_all add: raw_two_full_def raw_three_cut_def raw_big_def raw_abc_def section_defs
      ascii_def trim_not_ws_hd isWhiteSpace_def)

lemma pieces_two: "split_lookahead raw_two_full = [sectionP, LF # sectionQ @ [LF]]"
  by (simp add: raw_two_full_def section_defs str_defs split_simps)

lemma pieces_three:
  "split_lookahead raw_three_cut = [sectionP, LF # sectionQ_short, LF # sectionR @ [LF]]"
  by (simp add: raw_three_cut_def section_defs str_defs split_simps)

lemma pieces_big: "split_lookahead raw_big = [section_big @ [LF]]"
  by (simp add: raw_big_def section_defs str_defs split_simps)


lemma segments_two: "splitDiffByFile raw_two_full = [sectionP, sectionQ]"
  using raws_not_blank(1) pieces_two
  by (rule segments_from_pieces) (simp_all add: trim_between section_ends section_nonempty)

lemma segments_three: "splitDiffByFile raw_three_cut = [sectionP, sectionQ_short, sectionR]"
  using raws_not_blank(2) pieces_three
  by (rule segments_from_pieces) (simp_all add: trim_between section_ends section_nonempty)

lemma segments_big: "splitDiffByFile raw_big = [section_big]"
  using raws_not_blank(3) pieces_big
  by (rule segments_from_pieces) (simp_all add: trim_between section_ends section_nonempty)



section \<open>Where the byte budget is exceeded\<close>

lemma ascii_nonempty: "s \<noteq> [] \<Longrightarrow> ascii s \<noteq> []"
  by (simp add: ascii_def)

lemma git_gives_Inr: "git_gives fullRaw b h = Inr fullRaw"
  by (simp add: git_gives_def)

lemma loop_two_full:
  "run_loop [sectionP, sectionQ] =
   \<lparr>included = [sectionP, sectionQ], totalBytes = 2097152, didTruncate = False, excludedPushed = []\<rparr>"
proof -
  have 1: "loop_body loop_init sectionP =
           \<lparr>included = [sectionP], totalBytes = 1048576, didTruncate = False, excludedPushed = []\<rparr>"
    by (subst loop_body_admitted)
       (simp_all add: section_paths text_paths_not_image sections_not_binary section_bytes
          loop_init_def MAX_DIFF_BYTES_def MAX_FILE_DIFF_BYTES_def)
  show ?thesis
    unfolding run_loop_2 1
    by (subst loop_body_admitted)
       (simp_all add: section_paths text_paths_not_image sections_not_binary section_bytes
          MAX_DIFF_BYTES_def MAX_FILE_DIFF_BYTES_def)
qed

text \<open>
  C1 says that the diff of the result is at most 2 MiB (2097152 bytes) long for every
  input. The loop counts the bytes of the segments it admits and not the line feeds
  that join them: for two sections of exactly 1 MiB each, both are admitted and the
  diff is 2097153 bytes long.
\<close>

theorem two_full_sections_exceed_ceiling:
  "diff (getDiffForJudge (git_gives raw_two_full) rev_base rev_head) = sectionP @ [LF] @ sectionQ
   \<and> byteLength (diff (getDiffForJudge (git_gives raw_two_full) rev_base rev_head)) = 2097153
   \<and> MAX_DIFF_BYTES = 2097152"
proof -
  have d: "diff (getDiffForJudge (git_gives raw_two_full) rev_base rev_head) = sectionP @ [LF] @ sectionQ"
    by (simp add: getDiffForJudge_def git_gives_Inr diff_of_raw_def segments_two loop_two_full)
  have b: "byteLength (sectionP @ LF # sectionQ) = 2097153"
    by (simp add: section_defs ascii_def LF_def bytes_simps del: byteLength.simps(3))
  show ?thesis by (simp add: d b MAX_DIFF_BYTES_def)
qed

lemma loop_before_cut:
  "run_loop [sectionP, sectionQ_short] =
   \<lparr>included = [sectionP, sectionQ_short], totalBytes = 2097052, didTruncate = False,
    excludedPushed = []\<rparr>"
proof -
  have 1: "loop_body loop_init sectionP =
           \<lparr>included = [sectionP], totalBytes = 1048576, didTruncate = False, excludedPushed = []\<rparr>"
    by (subst loop_body_admitted)
       (simp_all add: section_paths text_paths_not_image sections_not_binary section_bytes
          loop_init_def MAX_DIFF_BYTES_def MAX_FILE_DIFF_BYTES_def)
  show ?thesis
    unfolding run_loop_2 1
    by (subst loop_body_admitted)
       (simp_all add: section_paths text_paths_not_image sections_not_binary section_bytes
          MAX_DIFF_BYTES_def MAX_FILE_DIFF_BYTES_def)
qed

lemma loop_after_cut:
  "run_loop [sectionP, sectionQ_short, sectionR] =
   \<lparr>included = [sectionP, sectionQ_short, take 100 sectionR], totalBytes = MAX_DIFF_BYTES,
    didTruncate = True, excludedPushed = [ascii ''r.txt'']\<rparr>"
proof -
  have "run_loop [sectionP, sectionQ_short, sectionR]
        = loop_body (run_loop [sectionP, sectionQ_short]) sectionR"
    by (simp add: run_loop_def)
  also have "\<dots> = \<lparr>included = [sectionP, sectionQ_short, take 100 sectionR],
                    totalBytes = MAX_DIFF_BYTES, didTruncate = True,
                    excludedPushed = [ascii ''r.txt'']\<rparr>"
    unfolding loop_before_cut
    by (subst loop_body_cut)
       (simp_all add: section_paths text_paths_not_image sections_not_binary section_bytes
          MAX_DIFF_BYTES_def MAX_FILE_DIFF_BYTES_def push_path_def ascii_nonempty)
  finally show ?thesis .
qed

text \<open>
  C3 says that a segment cut to fit is cut to a prefix whose UTF-8 length is the
  headroom. The headroom is counted in bytes and the cut in code units: with 100 bytes
  of headroom and a section of 227 bytes whose body is U+00E9, the prefix admitted has
  100 code units and 173 bytes, and the diff of the result is 2097227 bytes long.
\<close>

theorem cut_counts_code_units_not_bytes:
  "splitDiffByFile raw_three_cut = [sectionP, sectionQ_short, sectionR]
   \<and> MAX_DIFF_BYTES - totalBytes (run_loop [sectionP, sectionQ_short]) = 100
   \<and> byteLength sectionR = 227
   \<and> included (run_loop (splitDiffByFile raw_three_cut)) = [sectionP, sectionQ_short, take 100 sectionR]
   \<and> byteLength (take 100 sectionR) = 173
   \<and> byteLength (diff (getDiffForJudge (git_gives raw_three_cut) rev_base rev_head)) = 2097227"
proof -
  have t: "take 100 sectionR = ascii ''diff --git a/r.txt b/r.txt\<newline>'' @ replicate 73 0xE9"
    by (simp add: sectionR_def ascii_def)
  have b: "byteLength (take 100 sectionR) = 173"
    unfolding t by (simp add: ascii_def bytes_simps del: byteLength.simps(3))
  have d: "diff (getDiffForJudge (git_gives raw_three_cut) rev_base rev_head)
           = sectionP @ [LF] @ sectionQ_short @ [LF] @ take 100 sectionR"
    by (simp add: getDiffForJudge_def git_gives_Inr diff_of_raw_def segments_three loop_after_cut)
  have bd: "byteLength (sectionP @ LF # sectionQ_short @ LF # take 100 sectionR) = 2097227"
    unfolding t
    by (simp add: section_defs ascii_def LF_def bytes_simps del: byteLength.simps(3))
  show ?thesis
    by (simp add: segments_three loop_before_cut loop_after_cut section_bytes b d bd MAX_DIFF_BYTES_def)
qed

section \<open>Sections that are excluded\<close>

text \<open>
  C2, as amended. For every raw diff that consists of a single file section of 3 MB (or
  more), \<open>getDiffForJudge\<close> returns the empty diff, since the section is over the 1 MiB
  ceiling for one file and is excluded whole; \<open>excludedFiles\<close> holds that file's path
  (when the header line gives one), and \<open>truncated\<close> is true.
\<close>

theorem oversized_single_section_dropped:
  assumes "g b h = Inr fullRaw"
    and "splitDiffByFile fullRaw = [seg]"
    and "3000000 \<le> byteLength seg"
  shows "getDiffForJudge g b h =
         \<lparr>diff = [],
          excludedFiles = (if pathFromSegment seg = [] then [] else [pathFromSegment seg]),
          truncated = True, base = b, head = h\<rparr>"
  using assms by (rule single_oversized_result)

theorem oversized_single_section_dropped_witness:
  "git_gives raw_big rev_base rev_head = Inr raw_big
   \<and> splitDiffByFile raw_big = [section_big]
   \<and> 3000000 \<le> byteLength section_big
   \<and> getDiffForJudge (git_gives raw_big) rev_base rev_head =
       \<lparr>diff = [], excludedFiles = [ascii ''big.txt''], truncated = True,
        base = rev_base, head = rev_head\<rparr>"
proof -
  have 1: "git_gives raw_big rev_base rev_head = Inr raw_big" by (rule git_gives_Inr)
  have 2: "splitDiffByFile raw_big = [section_big]" by (rule segments_big)
  have 3: "3000000 \<le> byteLength section_big" by (simp add: section_bytes)
  show ?thesis
    using oversized_single_section_dropped[where g="git_gives raw_big" and b=rev_base and h=rev_head, OF 1 2 3] 1 2 3
    by (simp add: section_paths ascii_nonempty)
qed

theorem single_3MB_section_counterexample:
  "splitDiffByFile raw_big = [section_big]
   \<and> byteLength section_big = 3000000
   \<and> \<not> segmentIsBinary section_big
   \<and> diff (getDiffForJudge (git_gives raw_big) rev_base rev_head) = []
   \<and> diff (getDiffForJudge (git_gives raw_big) rev_base rev_head) \<noteq> take 2097152 section_big"
proof -
  have 1: "git_gives raw_big rev_base rev_head = Inr raw_big" by (rule git_gives_Inr)
  have 3: "3000000 \<le> byteLength section_big" by (simp add: section_bytes)
  have d: "diff (getDiffForJudge (git_gives raw_big) rev_base rev_head) = []"
    by (simp add: single_oversized_result[where g="git_gives raw_big" and b=rev_base and h=rev_head,
          OF 1 segments_big 3])
  have nb: "\<not> segmentIsBinary section_big"
    by (simp add: section_defs segmentIsBinary_def ascii_def
        includes_str_replicate[where rest="[]", simplified])
  show ?thesis by (simp add: segments_big section_bytes d nb section_ends)
qed





subsection \<open>A small diff with a file excluded twice\<close>

lemma segments_small:
  "splitDiffByFile raw_small =
   [ascii ''diff --git a/a.png b/a.png\<newline>Binary files differ'',
    ascii ''diff --git a/b.pdf b/b.pdf\<newline>+x'',
    ascii ''diff --git a/a.png b/a.png\<newline>y'']"
proof (rule segments_from_pieces)
  show "trim raw_small \<noteq> []"
    by (simp add: raw_small_def ascii_def trim_not_ws_hd isWhiteSpace_def)
  show "split_lookahead raw_small =
        [ascii ''diff --git a/a.png b/a.png\<newline>Binary files differ'',
         ascii ''\<newline>diff --git a/b.pdf b/b.pdf\<newline>+x'',
         ascii ''\<newline>diff --git a/a.png b/a.png\<newline>y\<newline>'']"
    by (simp add: raw_small_def ascii_def split_marker_unfold)
  show "map trim
         [ascii ''diff --git a/a.png b/a.png\<newline>Binary files differ'',
          ascii ''\<newline>diff --git a/b.pdf b/b.pdf\<newline>+x'',
          ascii ''\<newline>diff --git a/a.png b/a.png\<newline>y\<newline>''] =
        [ascii ''diff --git a/a.png b/a.png\<newline>Binary files differ'',
         ascii ''diff --git a/b.pdf b/b.pdf\<newline>+x'',
         ascii ''diff --git a/a.png b/a.png\<newline>y'']"
    by (simp add: ascii_def trim_def trimStart_def trimEnd_def isWhiteSpace_def)
  show "[] \<notin> set [ascii ''diff --git a/a.png b/a.png\<newline>Binary files differ'',
                    ascii ''diff --git a/b.pdf b/b.pdf\<newline>+x'',
                    ascii ''diff --git a/a.png b/a.png\<newline>y'']"
    by (simp add: ascii_def)
qed





theorem git_failure_gives_empty_result_witness:
  "git_fails rev_base rev_head = Inl ExecError
   \<and> getDiffForJudge git_fails rev_base rev_head =
       \<lparr>diff = [], excludedFiles = [], truncated = False, base = rev_base, head = rev_head\<rparr>"
proof -
  have f: "git_fails rev_base rev_head = Inl ExecError" by (simp add: git_fails_def)
  from git_failure_gives_empty_result[of git_fails rev_base rev_head ExecError, OF f] f
  show ?thesis by simp
qed

theorem splitDiffByFile_nonempty_trimmed_witness:
  "trim raw_small \<noteq> []
   \<and> \<not> fallback_condition raw_small
   \<and> 1 \<le> length (splitDiffByFile raw_small)
   \<and> splitDiffByFile raw_small ! 1 = ascii ''diff --git a/b.pdf b/b.pdf\<newline>+x''
   \<and> splitDiffByFile raw_small ! 1 \<noteq> []
   \<and> trim (splitDiffByFile raw_small ! 1) = splitDiffByFile raw_small ! 1"
proof -
  have t: "trim raw_small \<noteq> []"
    by (simp add: raw_small_def ascii_def trim_not_ws_hd isWhiteSpace_def)
  have m: "splitDiffByFile raw_small ! 1 \<in> set (splitDiffByFile raw_small)"
    by (simp add: segments_small)
  from splitDiffByFile_nonempty_trimmed[of raw_small] t m
  have "\<not> fallback_condition raw_small \<and> 1 \<le> length (splitDiffByFile raw_small)
        \<and> splitDiffByFile raw_small ! 1 \<noteq> []
        \<and> trim (splitDiffByFile raw_small ! 1) = splitDiffByFile raw_small ! 1"
    by blast
  moreover have "splitDiffByFile raw_small ! 1 = ascii ''diff --git a/b.pdf b/b.pdf\<newline>+x''"
    by (simp add: segments_small)
  ultimately show ?thesis using t by blast
qed

section \<open>extractDecisionIds\<close>

lemma exec_all_skip:
  "0 < k \<Longrightarrow> exec_all re k prev (c # cs) = exec_all re (k - 1) (Some c) cs"
  by (cases k) simp_all

lemmas regex_defs = DECERN_PREFIX_def DECERN_TICKET_def DECISIONS_URL_def ADR_REF_def
  word_boundary_def isIdChar_def isWordChar_def canonicalize_def

lemmas trim_defs = trim_def trimStart_def trimEnd_def isWhiteSpace_def

lemma exec_prefix_example:
  "exec_all DECERN_PREFIX 0 None (ascii ''decern:abc_123'') = [ascii ''abc_123'']"
  "exec_all DECERN_TICKET 0 None (ascii ''decern:abc_123'') = []"
  "exec_all DECISIONS_URL 0 None (ascii ''decern:abc_123'') = []"
  "exec_all ADR_REF 0 None (ascii ''decern:abc_123'') = []"
  by (simp_all add: ascii_def regex_defs isWhiteSpace_def exec_all_skip)

lemma exec_ticket_example:
  "exec_all DECERN_PREFIX 0 None (ascii ''DECERN-xyz'') = []"
  "exec_all DECERN_TICKET 0 None (ascii ''DECERN-xyz'') = [ascii ''xyz'']"
  "exec_all DECISIONS_URL 0 None (ascii ''DECERN-xyz'') = []"
  "exec_all ADR_REF 0 None (ascii ''DECERN-xyz'') = []"
  by (simp_all add: ascii_def regex_defs isWhiteSpace_def exec_all_skip)

lemma exec_adr_example:
  "exec_all DECERN_PREFIX 0 None (ascii ''See ADR-001'') = []"
  "exec_all DECERN_TICKET 0 None (ascii ''See ADR-001'') = []"
  "exec_all DECISIONS_URL 0 None (ascii ''See ADR-001'') = []"
  "exec_all ADR_REF 0 None (ascii ''See ADR-001'') = [ascii ''ADR-001'']"
  by (simp_all add: ascii_def regex_defs isWhiteSpace_def exec_all_skip)

lemma exec_repeated:
  "exec_all DECERN_PREFIX 0 None text_repeated = [ascii ''id1'']"
  "exec_all DECERN_TICKET 0 None text_repeated = [ascii ''id1'']"
  "exec_all DECISIONS_URL 0 None text_repeated = [ascii ''id1'']"
  "exec_all ADR_REF 0 None text_repeated = [ascii ''ADR-7'']"
  by (simp_all add: text_repeated_def ascii_def regex_defs isWhiteSpace_def exec_all_skip)

lemma trim_examples:
  "trim (ascii ''abc_123'') = ascii ''abc_123''" "trim (ascii ''xyz'') = ascii ''xyz''"
  "trim (ascii ''ADR-001'') = ascii ''ADR-001''" "trim (ascii ''id1'') = ascii ''id1''"
  "trim (ascii ''ADR-7'') = ascii ''ADR-7''"
  by (simp_all add: ascii_def trim_defs)

lemma added_examples:
  "added_ids (ascii ''decern:abc_123'') = [ascii ''abc_123'']"
  "added_ids (ascii ''DECERN-xyz'') = [ascii ''xyz'']"
  "added_ids (ascii ''See ADR-001'') = [ascii ''ADR-001'']"
  "added_ids text_repeated = [ascii ''id1'', ascii ''id1'', ascii ''id1'', ascii ''ADR-7'']"
  by (simp_all add: added_ids_def exec_prefix_example exec_ticket_example exec_adr_example
      exec_repeated trim_examples)

section \<open>The scan and the indices of the text\<close>

lemma found_bounds: "found re str k i \<Longrightarrow> k \<le> i \<and> i < length str \<and> match_at re str i \<noteq> None"
proof (induction rule: found.induct)
  case (first k i m n)
  then show ?case by (cases "i < length str") (simp_all add: match_at_def)
next
  case (later k i m n i')
  then show ?case by simp
qed

lemma found_past_end: "length str \<le> k \<Longrightarrow> \<not> found re str k i"
  using found_bounds[of re str k i] by linarith

lemma none_between_Suc:
  assumes "match_at re str k = None"
  shows "(\<forall>j. k \<le> j \<and> j < i \<longrightarrow> match_at re str j = None)
         \<longleftrightarrow> (\<forall>j. Suc k \<le> j \<and> j < i \<longrightarrow> match_at re str j = None)"
proof
  assume a: "\<forall>j. k \<le> j \<and> j < i \<longrightarrow> match_at re str j = None"
  show "\<forall>j. Suc k \<le> j \<and> j < i \<longrightarrow> match_at re str j = None"
  proof (intro allI impI)
    fix j assume "Suc k \<le> j \<and> j < i"
    then have "k \<le> j \<and> j < i" by simp
    with a show "match_at re str j = None" by blast
  qed
next
  assume a: "\<forall>j. Suc k \<le> j \<and> j < i \<longrightarrow> match_at re str j = None"
  show "\<forall>j. k \<le> j \<and> j < i \<longrightarrow> match_at re str j = None"
  proof (intro allI impI)
    fix j assume j: "k \<le> j \<and> j < i"
    show "match_at re str j = None"
    proof (cases "j = k")
      case True then show ?thesis using assms by simp
    next
      case False
      with j have "Suc k \<le> j \<and> j < i" by simp
      with a show ?thesis by blast
    qed
  qed
qed

lemma found_step_none:
  assumes "match_at re str k = None"
  shows "found re str k i \<longleftrightarrow> found re str (Suc k) i"
proof
  assume "found re str k i"
  then show "found re str (Suc k) i"
  proof (cases rule: found.cases)
    case (first m n)
    from first(2) assms have "k \<noteq> i" by auto
    with first(1) have le: "Suc k \<le> i" by simp
    have nb: "\<forall>j. Suc k \<le> j \<and> j < i \<longrightarrow> match_at re str j = None"
      using first(3) none_between_Suc[OF assms, of i] by simp
    show ?thesis using le first(2) nb by (rule found.first)
  next
    case (later i0 m n)
    from later(2) assms have "k \<noteq> i0" by auto
    with later(1) have le: "Suc k \<le> i0" by simp
    have nb: "\<forall>j. Suc k \<le> j \<and> j < i0 \<longrightarrow> match_at re str j = None"
      using later(3) none_between_Suc[OF assms, of i0] by simp
    show ?thesis using le later(2) nb later(4) by (rule found.later)
  qed
next
  assume "found re str (Suc k) i"
  then show "found re str k i"
  proof (cases rule: found.cases)
    case (first m n)
    from first(1) have le: "k \<le> i" by simp
    have nb: "\<forall>j. k \<le> j \<and> j < i \<longrightarrow> match_at re str j = None"
      using first(3) none_between_Suc[OF assms, of i] by simp
    show ?thesis using le first(2) nb by (rule found.first)
  next
    case (later i0 m n)
    from later(1) have le: "k \<le> i0" by simp
    have nb: "\<forall>j. k \<le> j \<and> j < i0 \<longrightarrow> match_at re str j = None"
      using later(3) none_between_Suc[OF assms, of i0] by simp
    show ?thesis using le later(2) nb later(4) by (rule found.later)
  qed
qed

lemma first_match_here:
  assumes "match_at re str k = Some (m, n)" and "k \<le> i0"
    and "\<forall>j. k \<le> j \<and> j < i0 \<longrightarrow> match_at re str j = None"
  shows "i0 = k"
proof (rule ccontr)
  assume "i0 \<noteq> k"
  with assms(2) have "k \<le> k \<and> k < i0" by simp
  with assms(3) have "match_at re str k = None" by blast
  with assms(1) show False by simp
qed

lemma found_step_some:
  assumes "match_at re str k = Some (m, n)"
  shows "found re str k i \<longleftrightarrow> i = k \<or> found re str (k + n) i"
proof
  assume "found re str k i"
  then show "i = k \<or> found re str (k + n) i"
  proof (cases rule: found.cases)
    case (first m' n')
    have "i = k" using assms first(1) first(3) by (rule first_match_here)
    then show ?thesis by simp
  next
    case (later i0 m' n')
    have e: "i0 = k" using assms later(1) later(3) by (rule first_match_here)
    with later(2) assms have "n' = n" by simp
    with later(4) e show ?thesis by simp
  qed
next
  assume "i = k \<or> found re str (k + n) i"
  then show "found re str k i"
  proof
    assume e: "i = k"
    have nb: "\<forall>j. k \<le> j \<and> j < k \<longrightarrow> match_at re str j = None" by auto
    have "found re str k k" using le_refl assms nb by (rule found.first)
    with e show ?thesis by simp
  next
    assume f: "found re str (k + n) i"
    have nb: "\<forall>j. k \<le> j \<and> j < k \<longrightarrow> match_at re str j = None" by auto
    show ?thesis using le_refl assms nb f by (rule found.later)
  qed
qed

lemma match_at_split:
  "match_at re (pre @ c # cs) (length pre) = re (if pre = [] then None else Some (last pre)) (c # cs)"
  by (cases pre rule: rev_cases) (auto simp: match_at_def nth_append)

lemma exec_all_indices:
  assumes "progresses re"
  shows "\<exists>is. exec_all re s (if pre = [] then None else Some (last pre)) cs
               = map (\<lambda>i. fst (the (match_at re (pre @ cs) i))) is
             \<and> sorted_wrt (<) is
             \<and> set is = {i. found re (pre @ cs) (length pre + s) i}"
proof (induction cs arbitrary: pre s)
  case Nil
  have "{i. found re (pre @ []) (length pre + s) i} = {}"
    using found_past_end[of "pre @ []" "length pre + s" re] by auto
  then show ?case by (intro exI[of _ "[]"]) simp
next
  case (Cons c cs)
  let ?t = "pre @ c # cs"
  let ?prev = "if pre = [] then None else Some (last pre)"
  have tx: "(pre @ [c]) @ cs = ?t" by simp
  have prev': "(if pre @ [c] = [] then None else Some (last (pre @ [c]))) = Some c" by simp
  show ?case
  proof (cases s)
    case (Suc s')
    from Cons.IH[where pre="pre @ [c]" and s=s'] obtain "is" where ix:
      "exec_all re s' (Some c) cs = map (\<lambda>i. fst (the (match_at re ?t i))) is"
      "sorted_wrt (<) is" "set is = {i. found re ?t (length (pre @ [c]) + s') i}"
      unfolding tx prev' by blast
    show ?thesis using ix Suc by (intro exI[of _ "is"]) simp
  next
    case 0
    have ma: "match_at re ?t (length pre) = re ?prev (c # cs)" by (rule match_at_split)
    show ?thesis
    proof (cases "re ?prev (c # cs)")
      case None
      from Cons.IH[where pre="pre @ [c]" and s=0] obtain "is" where ix:
        "exec_all re 0 (Some c) cs = map (\<lambda>i. fst (the (match_at re ?t i))) is"
        "sorted_wrt (<) is" "set is = {i. found re ?t (length (pre @ [c]) + 0) i}"
        unfolding tx prev' by blast
      have "found re ?t (length pre) i \<longleftrightarrow> found re ?t (Suc (length pre)) i" for i
        using found_step_none[of re ?t "length pre" i] ma None by simp
      then show ?thesis using ix 0 None by (intro exI[of _ "is"]) simp
    next
      case (Some mn)
      obtain m n where mn: "mn = (m, n)" by (cases mn)
      have n1: "1 \<le> n" using assms Some mn unfolding progresses_def by blast
      from Cons.IH[where pre="pre @ [c]" and s="n - 1"] obtain "is" where ix:
        "exec_all re (n - 1) (Some c) cs = map (\<lambda>i. fst (the (match_at re ?t i))) is"
        "sorted_wrt (<) is" "set is = {i. found re ?t (length (pre @ [c]) + (n - 1)) i}"
        unfolding tx prev' by blast
      have start: "length (pre @ [c]) + (n - 1) = length pre + n" using n1 by simp
      have fs: "found re ?t (length pre) i \<longleftrightarrow> i = length pre \<or> found re ?t (length pre + n) i" for i
        using found_step_some[of re ?t "length pre" m n i] ma Some mn by simp
      have gt: "\<forall>i\<in>set is. length pre < i"
      proof
        fix i assume "i \<in> set is"
        then have "found re ?t (length pre + n) i" using ix(3) unfolding start by simp
        then have "length pre + n \<le> i" using found_bounds by blast
        then show "length pre < i" using n1 by simp
      qed
      have "exec_all re s ?prev (c # cs)
            = map (\<lambda>i. fst (the (match_at re ?t i))) (length pre # is)"
        using 0 Some mn ix(1) ma by simp
      moreover have "sorted_wrt (<) (length pre # is)" using ix(2) gt by simp
      moreover have "set (length pre # is) = {i. found re ?t (length pre + s) i}"
        using ix(3) fs 0 unfolding start by auto
      ultimately show ?thesis by blast
    qed
  qed
qed

lemma exec_all_from_start:
  assumes "progresses re"
  shows "\<exists>is. exec_all re 0 None str = map (\<lambda>i. fst (the (match_at re str i))) is
             \<and> sorted_wrt (<) is \<and> set is = {i. found re str 0 i}"
  using exec_all_indices[OF assms, of 0 "[]" str] by simp

lemma families_progress:
  "progresses DECERN_PREFIX" "progresses DECERN_TICKET" "progresses DECISIONS_URL"
  "progresses ADR_REF"
  by (auto simp: progresses_def DECERN_PREFIX_def DECERN_TICKET_def DECISIONS_URL_def
      ADR_REF_def Let_def split: option.splits if_splits list.splits)

lemma first_index_le_nth: "p < length xs \<Longrightarrow> xs ! p = x \<Longrightarrow> first_index xs x \<le> p"
proof (induction xs arbitrary: p)
  case Nil then show ?case by simp
next
  case (Cons y ys)
  show ?case
  proof (cases p)
    case 0
    with Cons.prems show ?thesis by (simp add: first_index_def)
  next
    case (Suc q)
    with Cons.prems have "first_index ys x \<le> q" by (intro Cons.IH) simp_all
    then show ?thesis using Suc by (simp add: first_index_def)
  qed
qed

lemma nth_first_index: "x \<in> set xs \<Longrightarrow> xs ! first_index xs x = x"
  unfolding first_index_def by (induction xs) auto

text \<open>The order of the scan: form by form, and within a form from left to right.\<close>

lemma keys_in_scan_order:
  assumes "sorted_wrt (<) is0" "sorted_wrt (<) is1" "sorted_wrt (<) is2" "sorted_wrt (<) is3"
  shows "sorted_wrt (\<lambda>k k'. fst k < fst k' \<or> (fst k = fst k' \<and> snd k < snd k'))
           (map (Pair (0::nat)) is0 @ map (Pair 1) is1 @ map (Pair 2) is2 @ map (Pair 3) (is3::nat list))"
  using assms by (auto simp: sorted_wrt_append sorted_wrt_map)

lemma mentions_and_order:
  fixes str :: jsstring
  shows "(\<forall>x. x \<in> set (added_ids str) \<longleftrightarrow> (\<exists>f i. mention str f i x))
       \<and> (\<forall>x y. x \<in> set (added_ids str) \<and> first_index (added_ids str) x < first_index (added_ids str) y \<longrightarrow>
            (\<exists>f i. mention str f i x
               \<and> (\<forall>f' i'. mention str f' i' y \<longrightarrow> f < f' \<or> (f = f' \<and> i < i'))))"
proof -
  define val where "val = (\<lambda>k. trim (fst (the (match_at (families ! fst k) str (snd k)))))"
  obtain is0 where i0: "exec_all DECERN_PREFIX 0 None str = map (\<lambda>i. fst (the (match_at DECERN_PREFIX str i))) is0"
      "sorted_wrt (<) is0" "set is0 = {i. found DECERN_PREFIX str 0 i}"
    using exec_all_from_start[OF families_progress(1), of str] by blast
  obtain is1 where i1: "exec_all DECERN_TICKET 0 None str = map (\<lambda>i. fst (the (match_at DECERN_TICKET str i))) is1"
      "sorted_wrt (<) is1" "set is1 = {i. found DECERN_TICKET str 0 i}"
    using exec_all_from_start[OF families_progress(2), of str] by blast
  obtain is2 where i2: "exec_all DECISIONS_URL 0 None str = map (\<lambda>i. fst (the (match_at DECISIONS_URL str i))) is2"
      "sorted_wrt (<) is2" "set is2 = {i. found DECISIONS_URL str 0 i}"
    using exec_all_from_start[OF families_progress(3), of str] by blast
  obtain is3 where i3: "exec_all ADR_REF 0 None str = map (\<lambda>i. fst (the (match_at ADR_REF str i))) is3"
      "sorted_wrt (<) is3" "set is3 = {i. found ADR_REF str 0 i}"
    using exec_all_from_start[OF families_progress(4), of str] by blast
  define K where "K = map (Pair (0::nat)) is0 @ map (Pair 1) is1 @ map (Pair 2) is2 @ map (Pair 3) is3"
  have added: "added_ids str = map val K"
    by (simp add: added_ids_def i0(1) i1(1) i2(1) i3(1) K_def val_def families_def comp_def)
  have sortedK: "sorted_wrt (\<lambda>k k'. fst k < fst k' \<or> (fst k = fst k' \<and> snd k < snd k')) K"
    unfolding K_def using i0(2) i1(2) i2(2) i3(2) by (rule keys_in_scan_order)
  have memK: "k \<in> set K \<longleftrightarrow> fst k < length families \<and> found (families ! fst k) str 0 (snd k)" for k
  proof -
    obtain f i where k: "k = (f, i)" by (cases k)
    have "f < 4 \<longleftrightarrow> f = 0 \<or> f = 1 \<or> f = 2 \<or> f = 3" by auto
    then show ?thesis
      unfolding k K_def by (auto simp: i0(3) i1(3) i2(3) i3(3) families_def)
  qed
  have mention_iff: "mention str f i x \<longleftrightarrow> (f, i) \<in> set K \<and> val (f, i) = x" for f i x
  proof -
    have "match_at (families ! f) str i \<noteq> None" if "found (families ! f) str 0 i"
      using found_bounds[OF that] by simp
    then show ?thesis
      by (auto simp: mention_def memK val_def split: option.splits)
  qed
  have mem: "x \<in> set (added_ids str) \<longleftrightarrow> (\<exists>f i. mention str f i x)" for x
    unfolding added mention_iff by (auto simp: image_iff)
  have ord: "\<exists>f i. mention str f i x
               \<and> (\<forall>f' i'. mention str f' i' y \<longrightarrow> f < f' \<or> (f = f' \<and> i < i'))"
    if x: "x \<in> set (added_ids str)"
      and lt: "first_index (added_ids str) x < first_index (added_ids str) y" for x y
  proof -
    define p where "p = first_index (added_ids str) x"
    have pl: "p < length K" using first_index_less[OF x] by (simp add: p_def added)
    have "added_ids str ! p = x" unfolding p_def using x by (rule nth_first_index)
    then have vx: "val (K ! p) = x" using pl by (simp add: added)
    obtain f i where fi: "K ! p = (f, i)" by (cases "K ! p")
    have "(f, i) \<in> set K" using pl fi by (metis nth_mem)
    then have mx: "mention str f i x" using vx fi by (simp add: mention_iff)
    have "f < f' \<or> (f = f' \<and> i < i')" if my: "mention str f' i' y" for f' i'
    proof -
      from my have k': "(f', i') \<in> set K" "val (f', i') = y" by (simp_all add: mention_iff)
      then obtain p' where p': "p' < length K" "K ! p' = (f', i')" by (auto simp: in_set_conv_nth)
      have "added_ids str ! p' = y" using p' k'(2) by (simp add: added)
      then have "first_index (added_ids str) y \<le> p'"
        using p'(1) by (intro first_index_le_nth) (simp_all add: added)
      with lt have "p < p'" by (simp add: p_def)
      with sortedK p'(1) have "fst (K ! p) < fst (K ! p') \<or> (fst (K ! p) = fst (K ! p') \<and> snd (K ! p) < snd (K ! p'))"
        by (simp add: sorted_wrt_iff_nth_less)
      then show ?thesis by (simp add: fi p'(2))
    qed
    with mx show ?thesis by blast
  qed
  show ?thesis using mem ord by blast
qed

lemma found_first_eval:
  "k \<le> i \<Longrightarrow> match_at re str i = Some (m, n)
   \<Longrightarrow> list_all (\<lambda>j. match_at re str j = None) [k..<i] \<Longrightarrow> found re str k i"
  by (rule found.first) (auto simp: list_all_iff)

lemma found_later_eval:
  "k \<le> i \<Longrightarrow> match_at re str i = Some (m, n)
   \<Longrightarrow> list_all (\<lambda>j. match_at re str j = None) [k..<i] \<Longrightarrow> found re str (i + n) i'
   \<Longrightarrow> found re str k i'"
  by (rule found.later) (auto simp: list_all_iff)

lemmas match_eval = match_at_def ascii_def regex_defs isWhiteSpace_def

lemma upt_lists:
  "[0..<6] = [0, 1, 2, 3, 4, 5::nat]" "[8..<9] = [8::nat]" "[26..<27] = [26::nat]"
  "[0..<18] = [0, 1, 2, 3, 4, 5, 6, 7, 8, 9, 10, 11, 12, 13, 14, 15, 16, 17::nat]"
  by (simp_all add: upt_rec)

subsection \<open>A text with a form used twice and a reference in two forms\<close>

lemma two_forms_matches:
  "match_at DECERN_PREFIX text_two_forms 0 = Some (ascii ''a'', 8)"
  "match_at DECERN_PREFIX text_two_forms 8 = None"
  "match_at DECERN_PREFIX text_two_forms 9 = Some (ascii ''b'', 8)"
  "match_at DECERN_TICKET text_two_forms 18 = Some (ascii ''c'', 8)"
  "match_at DECERN_TICKET text_two_forms 26 = None"
  "match_at DECERN_TICKET text_two_forms 27 = Some (ascii ''b'', 8)"
  by (simp_all add: text_two_forms_def match_eval)

lemma two_forms_no_ticket_before:
  "list_all (\<lambda>j. match_at DECERN_TICKET text_two_forms j = None)
     [0, 1, 2, 3, 4, 5, 6, 7, 8, 9, 10, 11, 12, 13, 14, 15, 16, 17]"
  by (simp add: text_two_forms_def match_eval)

lemma two_forms_found:
  "found DECERN_PREFIX text_two_forms 0 9" "found DECERN_TICKET text_two_forms 0 27"
proof -
  have "found DECERN_PREFIX text_two_forms 8 9"
    by (rule found_first_eval[OF _ two_forms_matches(3)]) (simp_all add: upt_lists two_forms_matches)
  then have "found DECERN_PREFIX text_two_forms (0 + 8) 9" by simp
  then show "found DECERN_PREFIX text_two_forms 0 9"
    by (rule found_later_eval[OF _ two_forms_matches(1), rotated 2]) simp_all
  have "found DECERN_TICKET text_two_forms 26 27"
    by (rule found_first_eval[OF _ two_forms_matches(6)]) (simp_all add: upt_lists two_forms_matches)
  then have "found DECERN_TICKET text_two_forms (18 + 8) 27" by simp
  then show "found DECERN_TICKET text_two_forms 0 27"
    by (rule found_later_eval[OF _ two_forms_matches(4), rotated 2])
       (simp_all add: upt_lists two_forms_no_ticket_before[simplified])
qed

lemma two_forms_mentions:
  "mention text_two_forms 0 9 (ascii ''b'')" "mention text_two_forms 1 27 (ascii ''b'')"
  by (simp_all add: mention_def families_def two_forms_found two_forms_matches)
     (simp_all add: ascii_def trim_defs)

lemma two_forms_added:
  "added_ids text_two_forms = [ascii ''a'', ascii ''b'', ascii ''c'', ascii ''b'']"
proof -
  have e: "exec_all DECERN_PREFIX 0 None text_two_forms = [ascii ''a'', ascii ''b'']"
    "exec_all DECERN_TICKET 0 None text_two_forms = [ascii ''c'', ascii ''b'']"
    "exec_all DECISIONS_URL 0 None text_two_forms = []"
    "exec_all ADR_REF 0 None text_two_forms = []"
    by (simp_all add: text_two_forms_def ascii_def regex_defs isWhiteSpace_def exec_all_skip)
  have t: "trim (ascii ''a'') = ascii ''a''" "trim (ascii ''b'') = ascii ''b''"
    "trim (ascii ''c'') = ascii ''c''"
    by (simp_all add: ascii_def trim_defs)
  show ?thesis by (simp add: added_ids_def e t)
qed

lemma two_forms_result:
  "extractDecisionIds text_two_forms = [ascii ''a'', ascii ''b'', ascii ''c'']"
proof -
  have ne: "ascii ''b'' \<noteq> ascii ''a''" "ascii ''c'' \<noteq> ascii ''a''" "ascii ''c'' \<noteq> ascii ''b''"
    by (simp_all add: ascii_def)
  have t: "text_two_forms \<noteq> []" by (simp add: text_two_forms_def ascii_def)
  show ?thesis using ne t
    by (simp add: extractDecisionIds_def two_forms_added new_Set_def Set_add_def)
qed

subsection \<open>A text with the ADR reference first\<close>

lemma adr_first_matches:
  "match_at ADR_REF text_adr_first 0 = Some (ascii ''ADR-1'', 5)"
  "match_at DECERN_PREFIX text_adr_first 6 = Some (ascii ''x'', 8)"
  "list_all (\<lambda>j. match_at DECERN_PREFIX text_adr_first j = None) [0, 1, 2, 3, 4, 5]"
  by (simp_all add: text_adr_first_def match_eval)

lemma adr_first_mentions:
  "mention text_adr_first 3 0 (ascii ''ADR-1'')" "mention text_adr_first 0 6 (ascii ''x'')"
proof -
  have 1: "found ADR_REF text_adr_first 0 0"
    by (rule found_first_eval[OF _ adr_first_matches(1)]) simp_all
  have 2: "found DECERN_PREFIX text_adr_first 0 6"
    by (rule found_first_eval[OF _ adr_first_matches(2)])
       (simp_all add: upt_lists adr_first_matches(3)[simplified])
  have t: "trim (ascii ''ADR-1'') = ascii ''ADR-1''" "trim (ascii ''x'') = ascii ''x''"
    by (simp_all add: ascii_def trim_defs)
  show "mention text_adr_first 3 0 (ascii ''ADR-1'')"
    by (simp add: mention_def families_def 1 adr_first_matches t)
  show "mention text_adr_first 0 6 (ascii ''x'')"
    by (simp add: mention_def families_def 2 adr_first_matches t)
qed

lemma adr_first_result: "extractDecisionIds text_adr_first = [ascii ''x'', ascii ''ADR-1'']"
proof -
  have e: "exec_all DECERN_PREFIX 0 None text_adr_first = [ascii ''x'']"
    "exec_all DECERN_TICKET 0 None text_adr_first = []"
    "exec_all DECISIONS_URL 0 None text_adr_first = []"
    "exec_all ADR_REF 0 None text_adr_first = [ascii ''ADR-1'']"
    by (simp_all add: text_adr_first_def ascii_def regex_defs isWhiteSpace_def exec_all_skip)
  have t: "trim (ascii ''ADR-1'') = ascii ''ADR-1''" "trim (ascii ''x'') = ascii ''x''"
    by (simp_all add: ascii_def trim_defs)
  have ne: "ascii ''ADR-1'' \<noteq> ascii ''x''" by (simp add: ascii_def)
  have n: "text_adr_first \<noteq> []" by (simp add: text_adr_first_def ascii_def)
  show ?thesis using ne n
    by (simp add: extractDecisionIds_def added_ids_def e t new_Set_def Set_add_def)
qed

text \<open>
  C7, as amended. The three examples hold. For every text, the result holds each
  reference once, and a reference is in the result exactly when the scan for one of the
  four forms finds it at some index of the text. The result is in the order of the
  scan, which goes form by form (\<open>decern:\<close>, \<open>DECERN-\<close>, \<open>/decisions/\<close>, ADR) and
  within a form from left to right: of two references, the one that stands first in
  the result has a mention that comes before every mention of the other in that order.
  This is not the order of first appearance in the text.
\<close>

theorem extractDecisionIds_once_in_scan_order:
  "extractDecisionIds (ascii ''decern:abc_123'') = [ascii ''abc_123'']
   \<and> extractDecisionIds (ascii ''DECERN-xyz'') = [ascii ''xyz'']
   \<and> extractDecisionIds (ascii ''See ADR-001'') = [ascii ''ADR-001'']
   \<and> distinct (extractDecisionIds str)
   \<and> (\<forall>x. x \<in> set (extractDecisionIds str) \<longleftrightarrow> (\<exists>f i. mention str f i x))
   \<and> (\<forall>a b. a < b \<and> b < length (extractDecisionIds str) \<longrightarrow>
         (\<exists>f i. mention str f i (extractDecisionIds str ! a)
            \<and> (\<forall>f' i'. mention str f' i' (extractDecisionIds str ! b) \<longrightarrow>
                  f < f' \<or> (f = f' \<and> i < i'))))"
proof -
  have e1: "extractDecisionIds (ascii ''decern:abc_123'') = [ascii ''abc_123'']"
    by (simp add: extractDecisionIds_def added_examples new_Set_single ascii_nonempty)
  have e2: "extractDecisionIds (ascii ''DECERN-xyz'') = [ascii ''xyz'']"
    by (simp add: extractDecisionIds_def added_examples new_Set_single ascii_nonempty)
  have e3: "extractDecisionIds (ascii ''See ADR-001'') = [ascii ''ADR-001'']"
    by (simp add: extractDecisionIds_def added_examples new_Set_single ascii_nonempty)
  have a0: "added_ids [] = []" by (simp add: added_ids_def)
  have eq: "extractDecisionIds str = new_Set (added_ids str)"
    by (simp add: extractDecisionIds_def a0 new_Set_Nil)
  have d: "distinct (extractDecisionIds str)" unfolding eq by (rule distinct_new_Set)
  have m: "\<forall>x. x \<in> set (extractDecisionIds str) \<longleftrightarrow> (\<exists>f i. mention str f i x)"
    unfolding eq set_new_Set using mentions_and_order[of str] by blast
  have o: "\<exists>f i. mention str f i (extractDecisionIds str ! a)
            \<and> (\<forall>f' i'. mention str f' i' (extractDecisionIds str ! b) \<longrightarrow>
                  f < f' \<or> (f = f' \<and> i < i'))"
    if ab: "a < b \<and> b < length (extractDecisionIds str)" for a b
  proof -
    from ab have lt: "first_index (added_ids str) (extractDecisionIds str ! a)
                    < first_index (added_ids str) (extractDecisionIds str ! b)"
      unfolding eq by (intro new_Set_order_nth) simp_all
    from ab have "extractDecisionIds str ! a \<in> set (extractDecisionIds str)" by simp
    then have mem: "extractDecisionIds str ! a \<in> set (added_ids str)" by (simp add: eq set_new_Set)
    from mentions_and_order[of str] mem lt show ?thesis by blast
  qed
  show ?thesis using e1 e2 e3 d m o by blast
qed

theorem extractDecisionIds_once_in_scan_order_witness:
  "extractDecisionIds text_two_forms = [ascii ''a'', ascii ''b'', ascii ''c'']
   \<and> mention text_two_forms 0 9 (ascii ''b'')
   \<and> mention text_two_forms 1 27 (ascii ''b'')
   \<and> ascii ''b'' \<in> set (extractDecisionIds text_two_forms)
   \<and> distinct (extractDecisionIds text_two_forms)"
proof -
  note inst = extractDecisionIds_once_in_scan_order[of text_two_forms]
  from inst have d: "distinct (extractDecisionIds text_two_forms)" by blast
  from inst two_forms_mentions(2) have b: "ascii ''b'' \<in> set (extractDecisionIds text_two_forms)"
    by blast
  show ?thesis using d b two_forms_mentions by (simp add: two_forms_result)
qed

theorem extractDecisionIds_text_order_counterexample:
  "mention text_adr_first 3 0 (ascii ''ADR-1'')
   \<and> mention text_adr_first 0 6 (ascii ''x'')
   \<and> extractDecisionIds text_adr_first = [ascii ''x'', ascii ''ADR-1'']"
  by (simp add: adr_first_mentions adr_first_result)

section \<open>The confidence that callJudge reports\<close>

lemma callJudge_sent:
  assumes "snd (callJudge cfg d fetch params) = Some rq"
  shows "fst (callJudge cfg d fetch params) =
         (case fetch rq of
            Response status (BodyFields data) \<Rightarrow> judge_result_of_response d status data
          | Response status BodyNull \<Rightarrow> JudgeFailed 0 JudgeNetworkError
          | Aborted \<Rightarrow> JudgeFailed 0 JudgeTimeout
          | Rejected \<Rightarrow> JudgeFailed 0 JudgeNetworkError)"
  using assms by (auto simp: callJudge_def Let_def split: if_splits)

lemma confidence_of_200:
  "judge_confidence (judge_result_of_response d 200 data) = normalizeConfidence d (confidence data)"
  by (simp add: judge_result_of_response_def judge_confidence_def Let_def)

lemma normalized_value:
  assumes "snd (callJudge cfg d fetch params) = Some rq"
    and "fetch rq = Response 200 (BodyFields data)"
    and "confidence data = JNumber (Finite c)"
  shows "judge_confidence (fst (callJudge cfg d fetch params)) = Some (if 1 < c then d c else c)"
  using assms by (simp add: callJudge_sent confidence_of_200 normalizeConfidence_def)

text \<open>
  C8, as amended. For every HTTP 200 response of the judge endpoint whose
  \<open>confidence\<close> field is a finite number \<open>c\<close>, the confidence that \<open>callJudge\<close>
  reports is \<open>c / 100\<close> (as the division of doubles gives it) when \<open>c > 1\<close> and
  \<open>c\<close> otherwise; it lies within 0 and 1 when \<open>c\<close> lies within 0 and 100. The
  division is only taken to be monotone and exact at 0 and at 100, as rounding to the
  nearest double is.
\<close>

theorem confidence_normalized_when_in_range:
  assumes "snd (callJudge cfg d fetch params) = Some rq"
    and "fetch rq = Response 200 (BodyFields data)"
    and "confidence data = JNumber (Finite c)"
    and "\<And>x y. x \<le> y \<Longrightarrow> d x \<le> d y" and "d 0 = 0" and "d 100 = 1"
  shows "judge_confidence (fst (callJudge cfg d fetch params)) = Some (if 1 < c then d c else c)
         \<and> (0 \<le> c \<and> c \<le> 100 \<longrightarrow>
              0 \<le> (if 1 < c then d c else c) \<and> (if 1 < c then d c else c) \<le> 1)"
proof -
  have v: "judge_confidence (fst (callJudge cfg d fetch params)) = Some (if 1 < c then d c else c)"
    using assms(1,2,3) by (rule normalized_value)
  have "0 \<le> (if 1 < c then d c else c) \<and> (if 1 < c then d c else c) \<le> 1"
    if r: "0 \<le> c \<and> c \<le> 100"
  proof (cases "1 < c")
    case True
    from r have "d 0 \<le> d c" "d c \<le> d 100" using assms(4) by blast+
    with True show ?thesis by (simp add: assms(5,6))
  next
    case False
    with r show ?thesis by simp
  qed
  with v show ?thesis by blast
qed

lemma sample_sent:
  "snd (callJudge cfg_sample d (fetch_sample c) params_sample) =
   Some \<lparr>req_diff = [], req_truncated = False, req_baseSha = rev_base, req_headSha = rev_head,
         req_adrRef = Some (ascii ''ADR-7''), req_decisionId = None\<rparr>"
proof -
  have a: "isAdrRef (ascii ''ADR-7'')"
    by (simp add: isAdrRef_def ascii_def trim_defs canonicalize_def isIdChar_def)
  show ?thesis
    by (simp add: callJudge_def cfg_sample_def params_sample_def truthy_def ascii_nonempty a
        trim_examples Let_def)
qed

theorem confidence_normalized_when_in_range_witness:
  "fetch_sample 85
     \<lparr>req_diff = [], req_truncated = False, req_baseSha = rev_base, req_headSha = rev_head,
      req_adrRef = Some (ascii ''ADR-7''), req_decisionId = None\<rparr>
     = Response 200 (BodyFields (data_sample 85))
   \<and> confidence (data_sample 85) = JNumber (Finite 85)
   \<and> exact_div100 0 = 0 \<and> exact_div100 100 = 1
   \<and> judge_confidence (fst (callJudge cfg_sample exact_div100 (fetch_sample 85) params_sample))
       = Some (17 / 20)
   \<and> (0::rat) \<le> 17 / 20 \<and> (17::rat) / 20 \<le> 1"
proof -
  have f: "fetch_sample 85
     \<lparr>req_diff = [], req_truncated = False, req_baseSha = rev_base, req_headSha = rev_head,
      req_adrRef = Some (ascii ''ADR-7''), req_decisionId = None\<rparr>
     = Response 200 (BodyFields (data_sample 85))"
    by (simp add: fetch_sample_def)
  have c: "confidence (data_sample 85) = JNumber (Finite 85)" by (simp add: data_sample_def)
  have m: "\<And>x y. x \<le> y \<Longrightarrow> exact_div100 x \<le> exact_div100 y"
    by (simp add: exact_div100_def divide_right_mono)
  have z: "exact_div100 0 = 0" and h: "exact_div100 100 = 1" by (simp_all add: exact_div100_def)
  have v: "exact_div100 85 = 17 / 20" by (simp add: exact_div100_def)
  from confidence_normalized_when_in_range[OF sample_sent f c m z h]
  have "judge_confidence (fst (callJudge cfg_sample exact_div100 (fetch_sample 85) params_sample))
        = Some (17 / 20) \<and> (0::rat) \<le> 17 / 20 \<and> (17::rat) / 20 \<le> 1"
    by (simp add: v)
  with f c z h show ?thesis by blast
qed

theorem confidence_outside_unit_interval_counterexample:
  "judge_confidence (fst (callJudge cfg_sample exact_div100 (fetch_sample 150) params_sample))
     = Some (3 / 2)
   \<and> (1::rat) < 3 / 2
   \<and> judge_confidence (fst (callJudge cfg_sample exact_div100 (fetch_sample (- 5)) params_sample))
     = Some (- 5)
   \<and> (- 5::rat) < 0"
proof -
  have 1: "judge_confidence (fst (callJudge cfg_sample exact_div100 (fetch_sample 150) params_sample))
           = Some (3 / 2)"
    by (subst normalized_value[OF sample_sent, where data="data_sample 150" and c=150])
       (simp_all add: fetch_sample_def data_sample_def exact_div100_def)
  have 2: "judge_confidence (fst (callJudge cfg_sample exact_div100 (fetch_sample (- 5)) params_sample))
           = Some (- 5)"
    by (subst normalized_value[OF sample_sent, where data="data_sample (- 5)" and c="- 5"])
       (simp_all add: fetch_sample_def data_sample_def)
  show ?thesis using 1 2 by simp
qed

section \<open>The reference that run gives to the judge\<close>

lemma added_ids_trimmed: "x \<in> set (added_ids text) \<Longrightarrow> trim x = x"
  by (auto simp: added_ids_def trim_idem)

lemma extractDecisionIds_trimmed: "x \<in> set (extractDecisionIds text) \<Longrightarrow> trim x = x"
  by (auto simp: extractDecisionIds_def set_new_Set added_ids_trimmed split: if_splits)

lemma distinct_extractDecisionIds: "distinct (extractDecisionIds text)"
  by (simp add: extractDecisionIds_def distinct_new_Set)

lemma callJudge_request_ref:
  "snd (callJudge cfg d fetch params) = Some rq \<Longrightarrow> request_ref rq = Some (trim (decisionRef params))"
  by (auto simp: callJudge_def Let_def request_ref_def split: if_splits)

lemma judge_step_validated: "validated (judge_step cfg w ids called) = called"
  by (simp add: judge_step_def Let_def split: prod.splits)

lemma judge_step_request:
  assumes "rq \<in> set (judge_requests (judge_step cfg w ids called))"
  shows "request_ref rq = Some (trim (last ids))"
proof -
  obtain b h where bh: "getBaseAndHead (rev_parse_verify w) (CI_BASE_SHA cfg) (CI_HEAD_SHA cfg) = (b, h)"
    by (cases "getBaseAndHead (rev_parse_verify w) (CI_BASE_SHA cfg) (CI_HEAD_SHA cfg)")
  define params where "params =
     \<lparr>decisionRef = last ids,
      param_diff = diff (getDiffForJudge (git_diff w) b h),
      param_truncated = truncated (getDiffForJudge (git_diff w) b h),
      baseSha = base (getDiffForJudge (git_diff w) b h),
      headSha = head (getDiffForJudge (git_diff w) b h)\<rparr>"
  obtain res sent where cj: "callJudge cfg (div100 w) (fetch_judge w) params = (res, sent)"
    by (cases "callJudge cfg (div100 w) (fetch_judge w) params")
  from assms have "sent = Some rq"
    by (auto simp: judge_step_def Let_def bh params_def[symmetric] cj split: if_splits option.splits)
  then have "snd (callJudge cfg (div100 w) (fetch_judge w) params) = Some rq" by (simp add: cj)
  then have "request_ref rq = Some (trim (decisionRef params))" by (rule callJudge_request_ref)
  then show ?thesis by (simp add: params_def)
qed

lemma validate_loop_request:
  assumes "rq \<in> set (judge_requests (validate_loop cfg w ids called rest))"
    and "ids = called @ rest"
  shows "\<exists>i. length called \<le> i \<and> i < length ids
           \<and> validated (validate_loop cfg w ids called rest) = take (Suc i) ids
           \<and> (\<exists>s e. validateRef w (ids ! i) = ValidateOk s e)
           \<and> (\<forall>j. length called \<le> j \<and> j < i \<longrightarrow> (\<exists>s. validateRef w (ids ! j) = ValidateFailed s))
           \<and> request_ref rq = Some (trim (last ids))"
  using assms
proof (induction rest arbitrary: called)
  case Nil
  then show ?case by simp
next
  case (Cons x rest)
  show ?case
  proof (cases "validateRef w x")
    case (ValidateOk s e)
    with Cons.prems(1) have rq: "rq \<in> set (judge_requests (judge_step cfg w ids (called @ [x])))"
      by simp
    have x: "ids ! length called = x" using Cons.prems(2) by simp
    have t: "take (Suc (length called)) ids = called @ [x]" using Cons.prems(2) by simp
    have "length called \<le> length called \<and> length called < length ids
          \<and> validated (validate_loop cfg w ids called (x # rest)) = take (Suc (length called)) ids
          \<and> (\<exists>s e. validateRef w (ids ! length called) = ValidateOk s e)
          \<and> (\<forall>j. length called \<le> j \<and> j < length called \<longrightarrow> (\<exists>s. validateRef w (ids ! j) = ValidateFailed s))
          \<and> request_ref rq = Some (trim (last ids))"
      using ValidateOk x t Cons.prems(2) judge_step_request[OF rq]
      by (auto simp: judge_step_validated)
    then show ?thesis by blast
  next
    case (ValidateFailed s)
    with Cons.prems(1) have rq: "rq \<in> set (judge_requests (validate_loop cfg w ids (called @ [x]) rest))"
      by simp
    have ids: "ids = (called @ [x]) @ rest" using Cons.prems(2) by simp
    from Cons.IH[OF rq ids] obtain i where i:
      "length (called @ [x]) \<le> i" "i < length ids"
      "validated (validate_loop cfg w ids (called @ [x]) rest) = take (Suc i) ids"
      "\<exists>s e. validateRef w (ids ! i) = ValidateOk s e"
      "\<forall>j. length (called @ [x]) \<le> j \<and> j < i \<longrightarrow> (\<exists>s. validateRef w (ids ! j) = ValidateFailed s)"
      "request_ref rq = Some (trim (last ids))"
      by blast
    have x: "ids ! length called = x" using Cons.prems(2) by simp
    have "\<forall>j. length called \<le> j \<and> j < i \<longrightarrow> (\<exists>s. validateRef w (ids ! j) = ValidateFailed s)"
    proof (intro allI impI)
      fix j assume j: "length called \<le> j \<and> j < i"
      show "\<exists>s. validateRef w (ids ! j) = ValidateFailed s"
      proof (cases "j = length called")
        case True then show ?thesis using x ValidateFailed by simp
      next
        case False
        with j have "length (called @ [x]) \<le> j \<and> j < i" by simp
        then show ?thesis using i(5) by blast
      qed
    qed
    moreover have "length called \<le> i" using i(1) by simp
    moreover have "validated (validate_loop cfg w ids called (x # rest)) = take (Suc i) ids"
      using ValidateFailed i(3) by simp
    ultimately show ?thesis using i(2,4,6) by blast
  qed
qed

lemma run_request:
  assumes "rq \<in> set (judge_requests (run cfg w))"
  shows "rq \<in> set (judge_requests (validate_loop cfg w (extractDecisionIds (getPrOrCommitText cfg w)) []
                       (extractDecisionIds (getPrOrCommitText cfg w))))
         \<and> run cfg w = validate_loop cfg w (extractDecisionIds (getPrOrCommitText cfg w)) []
                       (extractDecisionIds (getPrOrCommitText cfg w))
         \<and> extractDecisionIds (getPrOrCommitText cfg w) \<noteq> []"
  using assms by (auto simp: run_def Let_def split: sum.splits if_splits)

lemma last_reference:
  assumes "rq \<in> set (judge_requests (run cfg w))"
    and "ids = extractDecisionIds (getPrOrCommitText cfg w)"
  shows "\<exists>i. i < length ids
           \<and> validated (run cfg w) = take (Suc i) ids
           \<and> (\<exists>s e. validateRef w (ids ! i) = ValidateOk s e)
           \<and> (\<forall>j. j < i \<longrightarrow> (\<exists>s. validateRef w (ids ! j) = ValidateFailed s))
           \<and> request_ref rq = Some (last ids)
           \<and> (i \<noteq> length ids - 1 \<longrightarrow> request_ref rq \<noteq> Some (ids ! i))"
proof -
  from run_request[OF assms(1)]
  have rq: "rq \<in> set (judge_requests (validate_loop cfg w ids [] ids))"
    and r: "run cfg w = validate_loop cfg w ids [] ids" and ne: "ids \<noteq> []"
    by (simp_all add: assms(2))
  from validate_loop_request[OF rq] obtain i where i:
    "i < length ids" "validated (validate_loop cfg w ids [] ids) = take (Suc i) ids"
    "\<exists>s e. validateRef w (ids ! i) = ValidateOk s e"
    "\<forall>j. j < i \<longrightarrow> (\<exists>s. validateRef w (ids ! j) = ValidateFailed s)"
    "request_ref rq = Some (trim (last ids))"
    by auto
  have "last ids \<in> set ids" using ne by simp
  then have t: "trim (last ids) = last ids"
    unfolding assms(2) by (rule extractDecisionIds_trimmed)
  have d: "distinct ids" unfolding assms(2) by (rule distinct_extractDecisionIds)
  have "ids ! i \<noteq> last ids" if "i \<noteq> length ids - 1"
  proof -
    have "last ids = ids ! (length ids - 1)" using ne by (simp add: last_conv_nth)
    moreover have "length ids - 1 < length ids" using ne by simp
    ultimately show ?thesis using d i(1) that by (simp add: nth_eq_iff_index_eq)
  qed
  then show ?thesis using i t r by auto
qed

text \<open>
  C10. Whenever \<open>run\<close> sends a request to the judge endpoint, some reference of the
  extracted list was the first to validate (those before it failed, and \<open>run\<close> tried
  no later one), and the reference in the request is the last element of the list. The
  two differ whenever the reference that validated is not at the last index.
\<close>

theorem judge_gets_last_reference:
  assumes "rq \<in> set (judge_requests (run cfg w))"
  shows "\<exists>i. i < length (extractDecisionIds (getPrOrCommitText cfg w))
           \<and> validated (run cfg w) = take (Suc i) (extractDecisionIds (getPrOrCommitText cfg w))
           \<and> (\<exists>s e. validateRef w (extractDecisionIds (getPrOrCommitText cfg w) ! i) = ValidateOk s e)
           \<and> (\<forall>j. j < i \<longrightarrow>
                 (\<exists>s. validateRef w (extractDecisionIds (getPrOrCommitText cfg w) ! j) = ValidateFailed s))
           \<and> request_ref rq = Some (last (extractDecisionIds (getPrOrCommitText cfg w)))
           \<and> (i \<noteq> length (extractDecisionIds (getPrOrCommitText cfg w)) - 1 \<longrightarrow>
                 request_ref rq \<noteq> Some (extractDecisionIds (getPrOrCommitText cfg w) ! i))"
  using assms by (rule last_reference) simp

lemma ids_sample:
  "extractDecisionIds (getPrOrCommitText cfg_sample world_sample) = [ascii ''id1'', ascii ''ADR-7'']"
proof -
  have ne: "ascii ''ADR-7'' \<noteq> ascii ''id1''" by (simp add: ascii_def)
  have t: "text_repeated \<noteq> []" by (simp add: text_repeated_def ascii_def)
  have r: "extractDecisionIds text_repeated = [ascii ''id1'', ascii ''ADR-7'']"
    using ne t by (simp add: extractDecisionIds_def added_examples new_Set_def Set_add_def)
  have "getPrOrCommitText cfg_sample world_sample = text_repeated"
    using t by (simp add: getPrOrCommitText_def cfg_sample_def truthy_def)
  then show ?thesis by (simp add: r)
qed

lemma judge_step_sample:
  "judge_step cfg_sample world_sample [ascii ''id1'', ascii ''ADR-7''] [ascii ''id1''] =
   \<lparr>exitCode = Exit 0, validated = [ascii ''id1''], judge_requests = [request_sample]\<rparr>"
proof -
  have bh: "getBaseAndHead (rev_parse_verify world_sample) (CI_BASE_SHA cfg_sample) (CI_HEAD_SHA cfg_sample)
            = (rev_base, rev_head)"
    by (simp add: getBaseAndHead_def world_sample_def cfg_sample_def truthy_def rev_base_def rev_head_def)
  have jd: "getDiffForJudge (git_diff world_sample) rev_base rev_head =
            \<lparr>diff = [], excludedFiles = [], truncated = False, base = rev_base, head = rev_head\<rparr>"
    by (simp add: getDiffForJudge_def world_sample_def git_fails_def)
  have a: "isAdrRef (ascii ''ADR-7'')"
    by (simp add: isAdrRef_def ascii_def trim_defs canonicalize_def isIdChar_def)
  have cj: "callJudge cfg_sample exact_div100 (fetch_sample (17 / 20))
              \<lparr>decisionRef = ascii ''ADR-7'', param_diff = [], param_truncated = False,
               baseSha = rev_base, headSha = rev_head\<rparr>
            = (JudgeAllowed JUndefined (Some (17 / 20)) None, Some request_sample)"
    by (simp add: callJudge_def cfg_sample_def truthy_def ascii_nonempty a trim_examples Let_def
        fetch_sample_def data_sample_def judge_result_of_response_def normalizeConfidence_def
        request_sample_def)
  have w: "div100 world_sample = exact_div100" "fetch_judge world_sample = fetch_sample (17 / 20)"
    by (simp_all add: world_sample_def)
  have c: "DECERN_GATE_JUDGE_ENABLED cfg_sample" "truthy (DECERN_JUDGE_LLM_BASE_URL cfg_sample)"
    "truthy (DECERN_JUDGE_LLM_API_KEY cfg_sample)" "truthy (DECERN_JUDGE_LLM_MODEL cfg_sample)"
    "DECERN_JUDGE_MIN_CONFIDENCE cfg_sample = None"
    by (simp_all add: cfg_sample_def truthy_def ascii_nonempty)
  show ?thesis
    by (simp add: judge_step_def c bh jd w cj Let_def)
qed

lemma run_sample:
  "run cfg_sample world_sample =
   \<lparr>exitCode = Exit 0, validated = [ascii ''id1''], judge_requests = [request_sample]\<rparr>"
proof -
  have c: "truthy (DECERN_BASE_URL cfg_sample)" "truthy (DECERN_CI_TOKEN cfg_sample)"
    by (simp_all add: cfg_sample_def truthy_def ascii_nonempty)
  have f: "changed_files world_sample = Inr [ascii ''package.json'']"
    "pathMatchesRequired world_sample (ascii ''package.json'')"
    by (simp_all add: world_sample_def)
  have v: "validateRef world_sample (ascii ''id1'') = ValidateOk (JString (ascii ''approved'')) False"
    by (simp add: world_sample_def)
  show ?thesis
    by (simp add: run_def f ids_sample c v judge_step_sample Let_def)
qed

theorem judge_gets_last_reference_witness:
  "extractDecisionIds (getPrOrCommitText cfg_sample world_sample) = [ascii ''id1'', ascii ''ADR-7'']
   \<and> run cfg_sample world_sample =
       \<lparr>exitCode = Exit 0, validated = [ascii ''id1''], judge_requests = [request_sample]\<rparr>
   \<and> validateRef world_sample (ascii ''id1'') = ValidateOk (JString (ascii ''approved'')) False
   \<and> request_ref request_sample = Some (ascii ''ADR-7'')
   \<and> request_ref request_sample \<noteq> Some (ascii ''id1'')"
proof -
  have m: "request_sample \<in> set (judge_requests (run cfg_sample world_sample))"
    by (simp add: run_sample)
  from judge_gets_last_reference[OF m]
  have "request_ref request_sample
        = Some (last (extractDecisionIds (getPrOrCommitText cfg_sample world_sample)))"
    by blast
  then have r: "request_ref request_sample = Some (ascii ''ADR-7'')"
    by (simp add: ids_sample)
  have ne: "ascii ''ADR-7'' \<noteq> ascii ''id1''" by (simp add: ascii_def)
  have v: "validateRef world_sample (ascii ''id1'') = ValidateOk (JString (ascii ''approved'')) False"
    by (simp add: world_sample_def)
  show ?thesis using r ne v by (simp add: ids_sample run_sample)
qed

end
